theory Spec2Isabelle
  imports Complex_Main "HOL-Library.Word" "HOL-Library.AList" "HOL-Library.Log_Nat"
begin

unbundle bit_operations_syntax

section \<open>Bytes and array helpers\<close>

type_synonym byte = "8 word"

text \<open>\<open>Uint8Array.prototype.slice(a, b)\<close> for \<open>0 \<le> a\<close>: the elements from index \<open>a\<close>
  up to, not including, \<open>b\<close>, clamped to the array.\<close>

definition sliceArray :: "'a list \<Rightarrow> nat \<Rightarrow> nat \<Rightarrow> 'a list" where
  "sliceArray xs a b = take (b - a) (drop a xs)"

text \<open>The running sum of a checksum loop (\<open>sum += data[i]\<close>), before masking.\<close>

definition sumBytes :: "byte list \<Rightarrow> nat" where
  "sumBytes xs = sum_list (map unat xs)"

section \<open>Physical layer (src/protocol/PhysicalLayer.ts)\<close>

definition header :: "byte list" where
  "header = [0xA5, 0x5A]"

text \<open>\<open>intToLittleEndian(value, bytes)\<close>: byte \<open>i\<close> is \<open>(value >> (i * 8)) & 0xFF\<close>.\<close>

definition intToLittleEndian :: "nat \<Rightarrow> nat \<Rightarrow> byte list" where
  "intToLittleEndian v bytes = map (\<lambda>i. of_nat ((v div 2 ^ (i * 8)) mod 256)) [0..<bytes]"

definition PhysicalLayer_pack :: "byte list \<Rightarrow> byte list" where
  "PhysicalLayer_pack data =
     (let len = length data + 1;
          lengthBytes = intToLittleEndian len 2;
          checksum = (sumBytes header + sumBytes lengthBytes + sumBytes data) mod 256
      in header @ lengthBytes @ data @ [of_nat checksum])"

text \<open>The \<open>while\<close> loop of \<open>unpackWithRemain\<close>: the scan cursor \<open>index\<close> and the frames
  pushed so far; returns the frames and the cursor where the loop stopped.\<close>

function unpackLoop :: "byte list \<Rightarrow> nat \<Rightarrow> byte list list \<Rightarrow> byte list list \<times> nat" where
  "unpackLoop data index result =
     (if index + 5 \<le> length data then
        (if data ! index \<noteq> header ! 0 \<or> data ! (index + 1) \<noteq> header ! 1
         then unpackLoop data (index + 1) result
         else
           (let len = unat (data ! (index + 2)) + unat (data ! (index + 3)) * 256;
                totalLen = 4 + len
            in if index + totalLen > length data then (result, index)
               else
                 (let s = sumBytes (sliceArray data index (index + totalLen - 1)) mod 256;
                      checksum = unat (data ! (index + totalLen - 1))
                  in if s \<noteq> checksum
                     then unpackLoop data (index + 1) result
                     else unpackLoop data (index + totalLen)
                            (result @ [sliceArray data index (index + totalLen)]))))
      else (result, index))"
  by pat_completeness auto
termination
  by (relation "measure (\<lambda>(data, index, result). length data - index)") auto

definition unpackWithRemain :: "byte list \<Rightarrow> byte list list \<times> byte list" where
  "unpackWithRemain data =
     (let (frames, index) = unpackLoop data 0 [] in (frames, drop index data))"

definition PhysicalLayer_unpack :: "byte list \<Rightarrow> byte list list" where
  "PhysicalLayer_unpack data = fst (unpackWithRemain data)"

text \<open>The head of \<open>_processPhysicalFrame\<close> (src/BluetoothKeySDK.ts): the payload handed to the
  transport layer, or nothing when the frame is shorter than 5 bytes or its length field does
  not match its length.\<close>

definition physicalFramePayload :: "byte list \<Rightarrow> byte list option" where
  "physicalFramePayload physicalFrame =
     (if length physicalFrame < 5 then None
      else
        (let dataLength = unat (physicalFrame ! 2) + unat (physicalFrame ! 3) * 256
         in if length physicalFrame \<noteq> 4 + dataLength then None
            else Some (sliceArray physicalFrame 4 (4 + dataLength - 1))))"

text \<open>Predicates on the scan position, used to state properties of the loop: the two
  conditions and the length the loop computes at cursor \<open>i\<close>.\<close>

definition headerAt :: "byte list \<Rightarrow> nat \<Rightarrow> bool" where
  "headerAt data i \<longleftrightarrow> data ! i = 0xA5 \<and> data ! (i + 1) = 0x5A"

definition totalLenAt :: "byte list \<Rightarrow> nat \<Rightarrow> nat" where
  "totalLenAt data i = 4 + (unat (data ! (i + 2)) + unat (data ! (i + 3)) * 256)"

definition checksumOkAt :: "byte list \<Rightarrow> nat \<Rightarrow> bool" where
  "checksumOkAt data i \<longleftrightarrow>
     sumBytes (sliceArray data i (i + totalLenAt data i - 1)) mod 256
       = unat (data ! (i + totalLenAt data i - 1))"

text \<open>A byte array that is one whole frame: header, a length field that matches, and a
  checksum that verifies.\<close>

definition validFrame :: "byte list \<Rightarrow> bool" where
  "validFrame f \<longleftrightarrow> headerAt f 0 \<and> totalLenAt f 0 = length f \<and> checksumOkAt f 0"

text \<open>What the loop does at a cursor \<open>k\<close>: it steps to \<open>k + 1\<close> (no header there, or a whole
  candidate whose checksum fails), it takes the frame that starts there, or it stops (fewer
  than 5 bytes left, or a header whose candidate is not whole yet).\<close>

definition skipsAt :: "byte list \<Rightarrow> nat \<Rightarrow> bool" where
  "skipsAt data k \<longleftrightarrow>
     k + 5 \<le> length data \<and>
     (if headerAt data k then k + totalLenAt data k \<le> length data \<and> \<not> checksumOkAt data k
      else True)"

definition frameAt :: "byte list \<Rightarrow> nat \<Rightarrow> bool" where
  "frameAt data k \<longleftrightarrow>
     k + 5 \<le> length data \<and> headerAt data k \<and> k + totalLenAt data k \<le> length data \<and>
     checksumOkAt data k"

definition stopsAt :: "byte list \<Rightarrow> nat \<Rightarrow> bool" where
  "stopsAt data k \<longleftrightarrow>
     (if k + 5 \<le> length data then headerAt data k \<and> length data < k + totalLenAt data k
      else True)"

text \<open>The first four bytes \<open>pack\<close> writes for a payload of \<open>n\<close> bytes, and its checksum.\<close>

definition packHead :: "nat \<Rightarrow> byte list" where
  "packHead n = header @ intToLittleEndian (n + 1) 2"

definition packSum :: "byte list \<Rightarrow> nat" where
  "packSum P = (sumBytes (packHead (length P)) + sumBytes P) mod 256"

section \<open>Transport layer (src/protocol/TransportLayer.ts)\<close>

datatype TransportAckType = REQUEST_WITHOUT_ACK | REQUEST_WITH_ACK | ACK | NONE

datatype TransportEncryptType = NO_ENCRYPT | ENCRYPT

text \<open>A \<open>CryptoFactory\<close>'s \<open>encrypt(data, secretKey)\<close>; \<open>None\<close> when its promise rejects.\<close>

type_synonym cryptoFactory = "byte list \<Rightarrow> byte list \<Rightarrow> byte list option"

text \<open>\<open>AesEcbCryptoFactory.encrypt\<close>: the key is padded with zeros or cut to 16 bytes and the
  data is encrypted by the library's AES (ECB, PKCS7), which is the parameter \<open>aes\<close>, taking the
  key and the plain text to the cipher text.\<close>

definition normalizeKey :: "byte list \<Rightarrow> byte list" where
  "normalizeKey secretKey =
     (if length secretKey \<noteq> 16 then
        (if length secretKey < 16 then secretKey @ replicate (16 - length secretKey) 0
         else take 16 secretKey)
      else secretKey)"

definition AesEcbCryptoFactory_encrypt :: "(byte list \<Rightarrow> byte list \<Rightarrow> byte list) \<Rightarrow> cryptoFactory" where
  "AesEcbCryptoFactory_encrypt aes bytes secretKey = Some (aes (normalizeKey secretKey) bytes)"

text \<open>The options object of \<open>pack\<close>; an absent property is \<open>None\<close> and takes its default.\<close>

record transportOptions =
  opt_version :: "nat option"
  opt_ackType :: "TransportAckType option"
  opt_encryptType :: "TransportEncryptType option"
  opt_cryptoFactory :: "cryptoFactory option"
  opt_secretKey :: "byte list option"

definition controlByteOf :: "TransportAckType \<Rightarrow> TransportEncryptType \<Rightarrow> byte" where
  "controlByteOf ackType encryptType =
     (case ackType of
        REQUEST_WITHOUT_ACK \<Rightarrow> if encryptType = ENCRYPT then 0xFC else 0xF4
      | REQUEST_WITH_ACK \<Rightarrow> if encryptType = ENCRYPT then 0xFE else 0xF6
      | ACK \<Rightarrow> if encryptType = ENCRYPT then 0xFD else 0xF5
      | NONE \<Rightarrow> if encryptType = ENCRYPT then 0xFF else 0xF7)"

text \<open>\<open>TransportLayerV1.pack\<close>; \<open>None\<close> when the encryption rejects.\<close>

definition TransportLayer_pack ::
  "(byte list \<Rightarrow> byte list \<Rightarrow> byte list) \<Rightarrow> byte list \<Rightarrow> 'a transportOptions_scheme \<Rightarrow> byte list option" where
  "TransportLayer_pack aes bytes options =
     (let version = (case opt_version options of None \<Rightarrow> 0x01 | Some v \<Rightarrow> v);
          ackType = (case opt_ackType options of None \<Rightarrow> REQUEST_WITH_ACK | Some a \<Rightarrow> a);
          encryptType = (case opt_encryptType options of None \<Rightarrow> ENCRYPT | Some e \<Rightarrow> e);
          cryptoFactory = (case opt_cryptoFactory options of
                             None \<Rightarrow> AesEcbCryptoFactory_encrypt aes | Some c \<Rightarrow> c);
          secretKey = (case opt_secretKey options of None \<Rightarrow> [] | Some k \<Rightarrow> k);
          controlByte = controlByteOf ackType encryptType;
          formatData = (case encryptType of
                          ENCRYPT \<Rightarrow> cryptoFactory bytes secretKey
                        | NO_ENCRYPT \<Rightarrow> Some bytes)
      in case formatData of
           None \<Rightarrow> None
         | Some fd \<Rightarrow> Some ([of_nat version, controlByte] @ fd))"

text \<open>A stand-in for the library's AES in examples: the cipher text is the plain text.\<close>

definition plainCipher :: "byte list \<Rightarrow> byte list \<Rightarrow> byte list" where
  "plainCipher key bytes = bytes"

section \<open>Application layer (DefaultApplicationLayer)\<close>

text \<open>\<open>ApplicationData\<close>: the frame index and the payload of an application message.\<close>

record ApplicationData =
  ad_frameIndex :: nat
  ad_data :: "byte list"

text \<open>\<open>pack(data, frameIndex)\<close>: the two header bytes are stored into a \<open>Uint8Array\<close>, which
  keeps an integer modulo 256; \<open>frameIndex\<close> is a JavaScript number, here an integer.\<close>

definition ApplicationLayer_pack :: "byte list \<Rightarrow> int \<Rightarrow> byte list" where
  "ApplicationLayer_pack payload frameIndex =
     [of_int frameIndex, of_nat (length payload)] @ payload"

definition ApplicationLayer_unpack :: "byte list \<Rightarrow> ApplicationData" where
  "ApplicationLayer_unpack bytes =
     (let result = \<lparr>ad_frameIndex = 0, ad_data = []\<rparr>
      in if length bytes < 2 then result
         else if int (unat (bytes ! 1)) \<noteq> int (length bytes) - 2 then result
         else result\<lparr>ad_frameIndex := unat (bytes ! 0), ad_data := drop 2 bytes\<rparr>)"

section \<open>XOR validation of the connect acknowledgement (src/BluetoothKeySDK.ts)\<close>

text \<open>The \<open>for\<close> loop of \<open>checkXorValidation\<close>, from index \<open>i\<close>: false at the first byte
  that is not the request byte XOR \<open>0x5A\<close>.\<close>

function xorLoop :: "byte list \<Rightarrow> byte list \<Rightarrow> nat \<Rightarrow> bool" where
  "xorLoop requestBody responseBody i =
     (if i < length requestBody then
        (if responseBody ! i \<noteq> requestBody ! i XOR 0x5A then False
         else xorLoop requestBody responseBody (i + 1))
      else True)"
  by pat_completeness auto
termination
  by (relation "measure (\<lambda>(requestBody, responseBody, i). length requestBody - i)") auto

definition checkXorValidation :: "byte list \<Rightarrow> byte list \<Rightarrow> bool" where
  "checkXorValidation requestData responseData =
     (if length requestData = 0 \<or> length responseData = 0 then False
      else if responseData ! 0 \<noteq> requestData ! 0 then False
      else
        (let requestBody = drop 1 requestData;
             responseBody = drop 1 responseData
         in if length responseBody \<noteq> length requestBody then False
            else xorLoop requestBody responseBody 0))"

section \<open>Segment encoder (src/utils/CommandUtils.ts)\<close>

text \<open>JavaScript numbers are modelled as integers. \<open>convertSegmentsToPackets\<close> pushes, for each
  number, \<open>number & 0xFF\<close>, \<open>(number >> 8) & 0xFF\<close>, \<open>(number >> 16) & 0xFF\<close> and
  \<open>(number >> 24) & 0xFF\<close>. The bit operators work on the number reduced to 32 bits, which
  does not change bits 0 to 31, so each byte is the shifted integer modulo 256.\<close>

definition numberBytes :: "int \<Rightarrow> byte list" where
  "numberBytes number =
     [of_int (number AND 0xFF),
      of_int (drop_bit 8 number AND 0xFF),
      of_int (drop_bit 16 number AND 0xFF),
      of_int (drop_bit 24 number AND 0xFF)]"

text \<open>The body of the inner loop: push the four bytes of one number, and emit a packet when the
  chunk has reached \<open>25 * 8\<close> bytes. The state is the packets emitted so far and the current
  chunk. The count byte \<open>currentChunk.length / 8\<close> goes into a \<open>Uint8Array\<close>, which truncates
  it to an integer modulo 256.\<close>

definition pushNumber :: "byte list list \<times> byte list \<Rightarrow> int \<Rightarrow> byte list list \<times> byte list" where
  "pushNumber st number =
     (let (packets, currentChunk) = st;
          currentChunk1 = currentChunk @ numberBytes number
      in if length currentChunk1 \<ge> 25 * 8
         then (packets @ [ [0x0D, of_nat (length currentChunk1 div 8)] @ currentChunk1], [])
         else (packets, currentChunk1))"

text \<open>The outer loop body: the two numbers \<open>start\<close>, \<open>end\<close> of one segment.\<close>

definition pushSegment ::
  "byte list list \<times> byte list \<Rightarrow> int \<times> int \<Rightarrow> byte list list \<times> byte list" where
  "pushSegment st segment = foldl pushNumber st [fst segment, snd segment]"

definition convertSegmentsToPackets :: "(int \<times> int) list \<Rightarrow> byte list list" where
  "convertSegmentsToPackets segments =
     (let (packets, currentChunk) = foldl pushSegment ([], []) segments
      in if length currentChunk > 0
         then packets @ [ [0x0D, of_nat (length currentChunk div 8)] @ currentChunk]
         else packets)"

subsection \<open>The packet format, for stating what the encoder produces\<close>

text \<open>The bytes of a list of ranges, eight per range, and the packet that carries them: opcode
  \<open>0x0D\<close>, the number of ranges, the bytes.\<close>

definition encodeRanges :: "(int \<times> int) list \<Rightarrow> byte list" where
  "encodeRanges rs = concat (map (\<lambda>(s, e). numberBytes s @ numberBytes e) rs)"

definition segmentPacket :: "(int \<times> int) list \<Rightarrow> byte list" where
  "segmentPacket rs = [0x0D, of_nat (length rs)] @ encodeRanges rs"

text \<open>The receiver's reading of LOCK_SEGMENTS packets, after the format of the protocol
  (opcode, range count, then per range two 4-byte little-endian unsigned words); the repository
  has no decoder of its own. A packet whose opcode or count does not fit its length is not
  decoded.\<close>

definition spec_word :: "byte \<Rightarrow> byte \<Rightarrow> byte \<Rightarrow> byte \<Rightarrow> int" where
  "spec_word b0 b1 b2 b3 = uint b0 + uint b1 * 2 ^ 8 + uint b2 * 2 ^ 16 + uint b3 * 2 ^ 24"

fun spec_decodeRanges :: "byte list \<Rightarrow> (int \<times> int) list" where
  "spec_decodeRanges (a0 # a1 # a2 # a3 # b0 # b1 # b2 # b3 # rest) =
     (spec_word a0 a1 a2 a3, spec_word b0 b1 b2 b3) # spec_decodeRanges rest"
| "spec_decodeRanges _ = []"

definition spec_decodePacket :: "byte list \<Rightarrow> (int \<times> int) list option" where
  "spec_decodePacket p =
     (case p of
        opcode # count # body \<Rightarrow>
          if opcode = 0x0D \<and> length body = 8 * unat count then Some (spec_decodeRanges body)
          else None
      | _ \<Rightarrow> None)"

fun spec_decodeAll :: "byte list list \<Rightarrow> (int \<times> int) list option" where
  "spec_decodeAll [] = Some []"
| "spec_decodeAll (p # ps) =
     (case spec_decodePacket p of
        None \<Rightarrow> None
      | Some rs \<Rightarrow> (case spec_decodeAll ps of None \<Rightarrow> None | Some rest \<Rightarrow> Some (rs @ rest)))"

definition inU32 :: "int \<Rightarrow> bool" where
  "inU32 n \<longleftrightarrow> 0 \<le> n \<and> n < 2 ^ 32"

subsection \<open>Lock ids to segments\<close>

text \<open>The ids are JavaScript numbers, that is IEEE 754 doubles: a finite value, one of the two
  infinities, or NaN. A finite value is kept as the rational it stands for; the two zeros are
  one value, which none of the operations used here (\<open>===\<close>, \<open>>\<close>, \<open>||\<close>, \<open>-\<close>, \<open>+\<close>) tells
  apart.\<close>

datatype number = Finite rat | PosInf | NegInf | NaN

text \<open>A lock id is a string or a number (\<open>string | number\<close>).\<close>

datatype lockId = IdString string | IdNumber number

text \<open>The result of an arithmetic operation is its exact value rounded to the nearest double,
  ties to the even significand. For a value \<open>a > 0\<close>, \<open>floorLog2 a\<close> is the exponent \<open>e\<close> with
  \<open>2^e \<le> a < 2^(e+1)\<close>; a double has a significand of 53 bits, so its last bit is worth
  \<open>2^(e - 52)\<close>, and \<open>2^(-1074)\<close> below the smallest normal exponent \<open>-1022\<close>. A value that
  rounds to \<open>2^1024\<close> or more becomes an infinity.\<close>

definition floorLog2 :: "rat \<Rightarrow> int" where
  "floorLog2 a = (if 1 \<le> a then bitlen \<lfloor>a\<rfloor> - 1 else - bitlen (\<lceil>1 / a\<rceil> - 1))"

definition pow2 :: "int \<Rightarrow> rat" where
  "pow2 e = (if 0 \<le> e then 2 ^ nat e else 1 / 2 ^ nat (- e))"

definition roundHalfEven :: "rat \<Rightarrow> int" where
  "roundHalfEven x =
     (let q = \<lfloor>x\<rfloor>; frac = x - of_int q
      in if 1 / 2 < frac \<or> (frac = 1 / 2 \<and> odd q) then q + 1 else q)"

definition toDouble :: "rat \<Rightarrow> number" where
  "toDouble x =
     (if x = 0 then Finite 0
      else let a = \<bar>x\<bar>;
               e = max (floorLog2 a) (- 1022);
               q = roundHalfEven (a / pow2 (e - 52))
           in if 1023 < e \<or> (e = 1023 \<and> q = 2 ^ 53)
              then (if 0 < x then PosInf else NegInf)
              else Finite (sgn x * of_int q * pow2 (e - 52)))"

text \<open>The operators of the function on numbers: \<open>x + 1\<close>, \<open>a - b\<close>, \<open>x === y\<close>, \<open>x > 0\<close> and
  \<open>x || 0\<close> (NaN and zero are the falsy numbers).\<close>

definition plusOne :: "number \<Rightarrow> number" where
  "plusOne x = (case x of Finite r \<Rightarrow> toDouble (r + 1) | PosInf \<Rightarrow> PosInf
                | NegInf \<Rightarrow> NegInf | NaN \<Rightarrow> NaN)"

definition subtract :: "number \<Rightarrow> number \<Rightarrow> number" where
  "subtract a b =
     (case a of
        NaN \<Rightarrow> NaN
      | Finite x \<Rightarrow> (case b of Finite y \<Rightarrow> toDouble (x - y) | PosInf \<Rightarrow> NegInf
                     | NegInf \<Rightarrow> PosInf | NaN \<Rightarrow> NaN)
      | PosInf \<Rightarrow> (case b of PosInf \<Rightarrow> NaN | NaN \<Rightarrow> NaN | _ \<Rightarrow> PosInf)
      | NegInf \<Rightarrow> (case b of NegInf \<Rightarrow> NaN | NaN \<Rightarrow> NaN | _ \<Rightarrow> NegInf))"

definition strictEquals :: "number \<Rightarrow> number \<Rightarrow> bool" where
  "strictEquals x y \<longleftrightarrow> x \<noteq> NaN \<and> x = y"

definition greaterThanZero :: "number \<Rightarrow> bool" where
  "greaterThanZero x = (case x of Finite r \<Rightarrow> 0 < r | PosInf \<Rightarrow> True | _ \<Rightarrow> False)"

definition orZero :: "number \<Rightarrow> number" where
  "orZero x = (case x of NaN \<Rightarrow> Finite 0 | _ \<Rightarrow> x)"

text \<open>\<open>parseInt(s, 10)\<close>: leading white space is skipped, an optional sign is read, and the
  longest run of decimal digits that follows is the value, rounded to a double; without a digit
  the result is NaN. The value is exact before it is rounded (the standard lets an
  implementation read the digits after the 20th significant one as zeros). Characters are
  8-bit, so the white space is that of Latin-1.\<close>

definition isWhiteSpace :: "char \<Rightarrow> bool" where
  "isWhiteSpace c \<longleftrightarrow> of_char c \<in> {0x09, 0x0A, 0x0B, 0x0C, 0x0D, 0x20, 0xA0 :: nat}"

definition isDigit :: "char \<Rightarrow> bool" where
  "isDigit c \<longleftrightarrow> 48 \<le> (of_char c :: nat) \<and> (of_char c :: nat) \<le> 57"

definition digitsValue :: "string \<Rightarrow> int" where
  "digitsValue ds = foldl (\<lambda>acc c. acc * 10 + (of_char c - 48)) 0 ds"

definition parseInt :: "string \<Rightarrow> number" where
  "parseInt s =
     (let s1 = dropWhile isWhiteSpace s;
          (sign, s2) = (case s1 of
                          c # r \<Rightarrow> if c = CHR ''-'' then (-1, r)
                                   else if c = CHR ''+'' then (1, r) else (1, s1)
                        | [] \<Rightarrow> (1, s1));
          ds = takeWhile isDigit s2
      in if ds = [] then NaN else toDouble (of_int (sign * digitsValue ds)))"

text \<open>The \<open>map\<close> callback: \<open>typeof id === 'string' ? parseInt(id, 10) || 0 : id\<close>.\<close>

definition idToNumber :: "lockId \<Rightarrow> number" where
  "idToNumber lid = (case lid of IdString s \<Rightarrow> orZero (parseInt s) | IdNumber n \<Rightarrow> n)"

text \<open>The ids that survive \<open>filter(id => id > 0)\<close>, before sorting.\<close>

definition positiveIds :: "lockId list \<Rightarrow> number list" where
  "positiveIds lockIds = filter greaterThanZero (map idToNumber lockIds)"

text \<open>\<open>sort((a, b) => a - b)\<close>: \<open>a\<close> stays before \<open>b\<close> unless \<open>a - b > 0\<close> (a NaN result counts as
  zero), and the sort is stable. On the positive numbers that reach it the comparator is a
  consistent order, so the result is the one stable ascending arrangement; it is computed here
  by insertion.\<close>

definition compareFn :: "number \<Rightarrow> number \<Rightarrow> number" where
  "compareFn a b = subtract a b"

fun insertSorted :: "number \<Rightarrow> number list \<Rightarrow> number list" where
  "insertSorted x [] = [x]"
| "insertSorted x (y # ys) =
     (if greaterThanZero (compareFn x y) then y # insertSorted x ys else x # y # ys)"

definition sortNumbers :: "number list \<Rightarrow> number list" where
  "sortNumbers xs = foldr insertSorted xs []"

text \<open>The \<open>for\<close> loop over \<open>ids[1..]\<close> with the current run \<open>[start, en]\<close> and the segments
  pushed so far, and the final push after the loop.\<close>

fun segmentLoop ::
  "number list \<Rightarrow> number \<Rightarrow> number \<Rightarrow> (number \<times> number) list \<Rightarrow> (number \<times> number) list" where
  "segmentLoop [] start en segments = segments @ [(start, en)]"
| "segmentLoop (n # ids) start en segments =
     (if strictEquals n (plusOne en) then segmentLoop ids start n segments
      else segmentLoop ids n n (segments @ [(start, en)]))"

definition convertLockIdsToSegments :: "lockId list \<Rightarrow> (number \<times> number) list" where
  "convertLockIdsToSegments lockIds =
     (let ids = sortNumbers (positiveIds lockIds)
      in case ids of [] \<Rightarrow> [] | first # rest \<Rightarrow> segmentLoop rest first first [])"

subsection \<open>Notions for stating what the segments are\<close>

text \<open>An integer as a number, and the safe integers: the integers of absolute value at most
  \<open>2^53 - 1\<close> (\<open>Number.isSafeInteger\<close>), on which double arithmetic is exact.\<close>

definition intNumber :: "int \<Rightarrow> number" where
  "intNumber n = Finite (of_int n)"

definition isSafeInteger :: "number \<Rightarrow> bool" where
  "isSafeInteger x =
     (case x of Finite r \<Rightarrow> r = of_int \<lfloor>r\<rfloor> \<and> \<bar>r\<bar> \<le> 2 ^ 53 - 1 | _ \<Rightarrow> False)"

text \<open>\<open>x <= y\<close> on numbers, the integers that lie in one of the ranges of a segment list, and
  the integers that occur in a list of numbers.\<close>

definition lessEq :: "number \<Rightarrow> number \<Rightarrow> bool" where
  "lessEq x y =
     (case x of
        NaN \<Rightarrow> False
      | NegInf \<Rightarrow> y \<noteq> NaN
      | Finite a \<Rightarrow> (case y of Finite b \<Rightarrow> a \<le> b | PosInf \<Rightarrow> True | _ \<Rightarrow> False)
      | PosInf \<Rightarrow> y = PosInf)"

definition inRange :: "number \<times> number \<Rightarrow> int \<Rightarrow> bool" where
  "inRange seg n \<longleftrightarrow> lessEq (fst seg) (intNumber n) \<and> lessEq (intNumber n) (snd seg)"

definition covered :: "(number \<times> number) list \<Rightarrow> int set" where
  "covered segs = {n. \<exists>seg \<in> set segs. inRange seg n}"

definition integersOf :: "number list \<Rightarrow> int set" where
  "integersOf ids = {n. intNumber n \<in> set ids}"

text \<open>Segment lists in which every segment ends at least two below the start of every later
  one: such segments are in ascending order, pairwise disjoint, and no two of them can be
  merged into one range.\<close>

definition gapBefore :: "number \<times> number \<Rightarrow> number \<times> number \<Rightarrow> bool" where
  "gapBefore a b =
     (case snd a of
        Finite e \<Rightarrow> (case fst b of Finite s \<Rightarrow> e + 1 < s | PosInf \<Rightarrow> True | _ \<Rightarrow> False)
      | _ \<Rightarrow> False)"

definition separated :: "(number \<times> number) list \<Rightarrow> bool" where
  "separated segs \<longleftrightarrow> sorted_wrt gapBefore segs"

definition ascending :: "(number \<times> number) list \<Rightarrow> bool" where
  "ascending segs \<longleftrightarrow> sorted_wrt (\<lambda>a b. lessEq (fst a) (fst b)) segs"

text \<open>The loop on exact integers, for reasoning about its run on safe integers.\<close>

fun exactLoop :: "int list \<Rightarrow> int \<Rightarrow> int \<Rightarrow> (int \<times> int) list \<Rightarrow> (int \<times> int) list" where
  "exactLoop [] start en segments = segments @ [(start, en)]"
| "exactLoop (n # ids) start en segments =
     (if n = en + 1 then exactLoop ids start n segments
      else exactLoop ids n n (segments @ [(start, en)]))"

definition segmentNumbers :: "int \<times> int \<Rightarrow> number \<times> number" where
  "segmentNumbers seg = (intNumber (fst seg), intNumber (snd seg))"

section \<open>The SDK object (src/BluetoothKeySDK.ts)\<close>

subsection \<open>State\<close>

datatype ConnectionStatus = CONNECTING | CONNECTED | DISCONNECTING | DISCONNECTED

record connection =
  isConnected :: bool
  status :: ConnectionStatus

text \<open>Errors of the SDK that the modelled paths create: \<open>readTimeout()\<close>, \<open>protocolError(..)\<close>,
  and the \<open>unknownError\<close> whose message says that the connection dropped and the wait for the
  response is cancelled, and the one whose message says that disconnecting failed.\<close>

datatype sdkError = ReadTimeout | ProtocolError | ConnectionClosed | DisconnectFailed

text \<open>A promise is pending until it is resolved or rejected; settling it again does nothing.\<close>

datatype settlement = Pending | Resolved "byte list" | Rejected sdkError

text \<open>An entry of a device's map of pending frame responses: the promise whose \<open>resolve\<close> and
  \<open>reject\<close> it holds, and its timeout timer.\<close>

record waiter =
  w_promise :: nat
  w_timer :: nat

text \<open>The parsed status report carried by a report event.\<close>

datatype LockState =
  UNCONNECTED | UNKNOWN | UNKNOWN_OPEN | UNKNOWN_CLOSED
  | UNLOCKED_OPEN | UNLOCKED_CLOSED | LOCKED_OPEN | LOCKED_CLOSED

record statusReport =
  r_command :: byte
  r_state :: LockState
  r_isLocked :: bool
  r_batteryLevel :: nat
  r_isConnected :: bool
  r_lockId :: int
  r_operationResult :: "bool option"

text \<open>Calls of \<open>emitEvent\<close>, by event type, with the device and the payload.\<close>

datatype event =
  DeviceReportEvent string "byte list" statusReport
  | LockStatusReportEvent string "byte list" statusReport
  | DeviceInfoReportEvent string "byte list" statusReport
  | ErrorEvent string
  | DisconnectedEvent string

text \<open>The fields of the SDK object that the modelled methods read or write. Maps of the source
  are partial functions; the inner \<open>Map\<close> objects of \<open>pendingFrameResponses\<close> live in
  \<open>responseMaps\<close> and are referred to by address, because a timeout callback keeps the map
  object it was created with. \<open>promises\<close> holds the state of every promise created by
  \<open>waitForFrameResponse\<close>, \<open>timers\<close> the armed timeout timers with what their callback closes
  over (map address, frame index, promise), \<open>emitted\<close> the calls of \<open>emitEvent\<close> and \<open>written\<close>
  the calls of \<open>BleClient.write\<close>, oldest first. The maps \<open>pendingMessages\<close>,
  \<open>currentBusiness\<close>, \<open>businessResults\<close>, \<open>_authStatusMap\<close>, \<open>authPromises\<close> and
  \<open>receivingTimeoutTimers\<close> are left out: what the methods below do to them has no effect
  on the fields kept here.\<close>

record sdk =
  connections :: "string \<rightharpoonup> connection"
  disconnectingDevices :: "string set"
  frameIndexes :: "string \<rightharpoonup> nat"
  dynamicKeys :: "string \<rightharpoonup> byte list"
  dataBuffers :: "string \<rightharpoonup> byte list"
  pendingFrameResponses :: "string \<rightharpoonup> nat"
  responseMaps :: "nat \<rightharpoonup> (nat \<times> waiter) list"
  promises :: "nat \<rightharpoonup> settlement"
  timers :: "nat \<rightharpoonup> nat \<times> nat \<times> nat"
  nextId :: nat
  emitted :: "event list"
  written :: "(string \<times> byte list) list"

subsection \<open>Building packets\<close>

text \<open>\<open>this.frameIndexes.get(deviceId) || 0\<close> and \<open>this.dynamicKeys.get(deviceId) || new Uint8Array()\<close>.\<close>

definition currentFrameIndex :: "sdk \<Rightarrow> string \<Rightarrow> nat" where
  "currentFrameIndex s deviceId = (case frameIndexes s deviceId of None \<Rightarrow> 0 | Some f \<Rightarrow> f)"

definition dynamicKeyOf :: "sdk \<Rightarrow> string \<Rightarrow> byte list" where
  "dynamicKeyOf s deviceId = (case dynamicKeys s deviceId of None \<Rightarrow> [] | Some k \<Rightarrow> k)"

text \<open>The options of \<open>buildCompletePacket\<close>: the transport options and a frame index.\<close>

record packetOptions = transportOptions +
  opt_frameIndex :: "nat option"

text \<open>\<open>buildCompletePacket\<close>: application, transport and physical packing; the frame index of
  the device is stored as \<open>(frameIndex + 1) % 256\<close> when the ack type is \<open>REQUEST_WITH_ACK\<close>.
  An error thrown on the way is rethrown as a protocol error, with the state as it was.\<close>

definition buildCompletePacket ::
  "(byte list \<Rightarrow> byte list \<Rightarrow> byte list) \<Rightarrow> sdk \<Rightarrow> string \<Rightarrow> byte list \<Rightarrow> packetOptions
     \<Rightarrow> (sdkError + byte list) \<times> sdk" where
  "buildCompletePacket aes s deviceId applicationData options =
     (let frameIndex = (case opt_frameIndex options of
                          None \<Rightarrow> currentFrameIndex s deviceId | Some f \<Rightarrow> f);
          version = (case opt_version options of None \<Rightarrow> 0x01 | Some v \<Rightarrow> v);
          ackType = (case opt_ackType options of None \<Rightarrow> REQUEST_WITH_ACK | Some a \<Rightarrow> a);
          encryptType = (case opt_encryptType options of None \<Rightarrow> ENCRYPT | Some e \<Rightarrow> e);
          secretKey = (case opt_secretKey options of
                         None \<Rightarrow> dynamicKeyOf s deviceId | Some k \<Rightarrow> k);
          appData = ApplicationLayer_pack applicationData (int frameIndex)
      in case TransportLayer_pack aes appData
                \<lparr>opt_version = Some version, opt_ackType = Some ackType,
                 opt_encryptType = Some encryptType,
                 opt_cryptoFactory = opt_cryptoFactory options,
                 opt_secretKey = Some secretKey\<rparr> of
           None \<Rightarrow> (Inl ProtocolError, s)
         | Some transportData \<Rightarrow>
             (let physicalData = PhysicalLayer_pack transportData
              in (Inr physicalData,
                  if ackType = REQUEST_WITH_ACK
                  then s\<lparr>frameIndexes := (frameIndexes s)(deviceId \<mapsto> (frameIndex + 1) mod 256)\<rparr>
                  else s)))"

text \<open>The packet building step of \<open>sendCommand\<close>: the current frame index of the device is
  read and passed on, together with the caller's transport options.\<close>

definition sendCommand_build ::
  "(byte list \<Rightarrow> byte list \<Rightarrow> byte list) \<Rightarrow> sdk \<Rightarrow> string \<Rightarrow> byte list \<Rightarrow> transportOptions
     \<Rightarrow> (sdkError + byte list) \<times> sdk" where
  "sendCommand_build aes s deviceId commandData transportOpts =
     (let currentFrameIndex = currentFrameIndex s deviceId
      in buildCompletePacket aes s deviceId commandData
           (transportOptions.extend transportOpts
              (packetOptions.fields (Some currentFrameIndex))))"

text \<open>\<open>buildReplyPacket\<close>: the given frame index, the ack type fixed to \<open>ACK\<close>; no field of the
  SDK is written.\<close>

definition buildReplyPacket ::
  "(byte list \<Rightarrow> byte list \<Rightarrow> byte list) \<Rightarrow> sdk \<Rightarrow> string \<Rightarrow> byte list \<Rightarrow> nat
     \<Rightarrow> transportOptions option \<Rightarrow> (sdkError + byte list) \<times> sdk" where
  "buildReplyPacket aes s deviceId applicationData frameIndex transportOpts =
     (let version = (case transportOpts of None \<Rightarrow> 0x01
                     | Some t \<Rightarrow> (case opt_version t of None \<Rightarrow> 0x01 | Some v \<Rightarrow> v));
          encryptType = (case transportOpts of None \<Rightarrow> ENCRYPT
                         | Some t \<Rightarrow> (case opt_encryptType t of None \<Rightarrow> ENCRYPT | Some e \<Rightarrow> e));
          cryptoFactory = (case transportOpts of None \<Rightarrow> None | Some t \<Rightarrow> opt_cryptoFactory t);
          secretKey = (case transportOpts of None \<Rightarrow> dynamicKeyOf s deviceId
                       | Some t \<Rightarrow> (case opt_secretKey t of
                                     None \<Rightarrow> dynamicKeyOf s deviceId | Some k \<Rightarrow> k));
          appData = ApplicationLayer_pack applicationData (int frameIndex)
      in case TransportLayer_pack aes appData
                \<lparr>opt_version = Some version, opt_ackType = Some ACK,
                 opt_encryptType = Some encryptType,
                 opt_cryptoFactory = cryptoFactory,
                 opt_secretKey = Some secretKey\<rparr> of
           None \<Rightarrow> (Inl ProtocolError, s)
         | Some transportData \<Rightarrow> (Inr (PhysicalLayer_pack transportData), s))"

subsection \<open>Pending frame responses\<close>

text \<open>A \<open>Map\<close> from frame index to waiter is a list of entries in insertion order:
  \<open>get\<close> is \<open>map_of\<close>, \<open>set\<close> is \<open>AList.update\<close>, \<open>delete\<close> is \<open>AList.delete\<close>.\<close>

definition responseMapAt :: "sdk \<Rightarrow> nat \<Rightarrow> (nat \<times> waiter) list" where
  "responseMapAt s mapRef = (case responseMaps s mapRef of None \<Rightarrow> [] | Some m \<Rightarrow> m)"

definition rejectPromise :: "sdk \<Rightarrow> nat \<Rightarrow> sdkError \<Rightarrow> sdk" where
  "rejectPromise s p e =
     (if promises s p = Some Pending then s\<lparr>promises := (promises s)(p \<mapsto> Rejected e)\<rparr> else s)"

definition resolvePromise :: "sdk \<Rightarrow> nat \<Rightarrow> byte list \<Rightarrow> sdk" where
  "resolvePromise s p response =
     (if promises s p = Some Pending then s\<lparr>promises := (promises s)(p \<mapsto> Resolved response)\<rparr>
      else s)"

definition clearTimeout :: "sdk \<Rightarrow> nat \<Rightarrow> sdk" where
  "clearTimeout s t = s\<lparr>timers := (timers s)(t := None)\<rparr>"

definition emitEvent :: "sdk \<Rightarrow> event \<Rightarrow> sdk" where
  "emitEvent s e = s\<lparr>emitted := emitted s @ [e]\<rparr>"

text \<open>\<open>BleClient.write\<close> on the write characteristic: the call is recorded.\<close>

definition bleWrite :: "sdk \<Rightarrow> string \<Rightarrow> byte list \<Rightarrow> sdk" where
  "bleWrite s deviceId packet = s\<lparr>written := written s @ [(deviceId, packet)]\<rparr>"

text \<open>\<open>waitForFrameResponse\<close>: a new promise and a new timer are created, the waiter is put
  into the device's map (a new map when the device has none), and the map is stored for the
  device. The result is the promise. The length of the timeout is not modelled; the timer
  running out is the step \<open>timerFires\<close>.\<close>

definition waitForFrameResponse :: "sdk \<Rightarrow> string \<Rightarrow> nat \<Rightarrow> nat \<times> sdk" where
  "waitForFrameResponse s deviceId frameIndex =
     (let (mapRef, s1) = (case pendingFrameResponses s deviceId of
                            Some r \<Rightarrow> (r, s)
                          | None \<Rightarrow> (nextId s,
                                     s\<lparr>responseMaps := (responseMaps s)(nextId s \<mapsto> []),
                                       nextId := nextId s + 1\<rparr>));
          p = nextId s1;
          t = nextId s1 + 1;
          deviceFrameResponses =
            AList.update frameIndex \<lparr>w_promise = p, w_timer = t\<rparr> (responseMapAt s1 mapRef)
      in (p, s1\<lparr>promises := (promises s1)(p \<mapsto> Pending),
                timers := (timers s1)(t \<mapsto> (mapRef, frameIndex, p)),
                responseMaps := (responseMaps s1)(mapRef \<mapsto> deviceFrameResponses),
                pendingFrameResponses := (pendingFrameResponses s1)(deviceId \<mapsto> mapRef),
                nextId := nextId s1 + 2\<rparr>))"

text \<open>The timeout callback of a waiter: it deletes the frame index from the map it was created
  with and rejects the promise with a read timeout. A cleared timer does not fire.\<close>

definition timerFires :: "sdk \<Rightarrow> nat \<Rightarrow> sdk" where
  "timerFires s t =
     (case timers s t of
        None \<Rightarrow> s
      | Some (mapRef, frameIndex, p) \<Rightarrow>
          (let s1 = s\<lparr>timers := (timers s)(t := None)\<rparr>;
               s2 = s1\<lparr>responseMaps :=
                         (responseMaps s1)(mapRef \<mapsto> AList.delete frameIndex (responseMapAt s1 mapRef))\<rparr>
           in rejectPromise s2 p ReadTimeout))"

definition resolveFrameResponse :: "sdk \<Rightarrow> string \<Rightarrow> nat \<Rightarrow> byte list \<Rightarrow> sdk" where
  "resolveFrameResponse s deviceId frameIndex response =
     (case pendingFrameResponses s deviceId of
        None \<Rightarrow> s
      | Some mapRef \<Rightarrow>
          (case map_of (responseMapAt s mapRef) frameIndex of
             None \<Rightarrow> s
           | Some pendingResponse \<Rightarrow>
               (let s1 = clearTimeout s (w_timer pendingResponse);
                    s2 = s1\<lparr>responseMaps :=
                              (responseMaps s1)(mapRef \<mapsto> AList.delete frameIndex (responseMapAt s1 mapRef))\<rparr>
                in resolvePromise s2 (w_promise pendingResponse) response)))"

text \<open>\<open>clearPendingFrameResponses\<close>: every waiter of the device has its timer cleared and its
  promise rejected with the error of a closed connection; then the map is emptied.\<close>

definition clearPendingFrameResponses :: "sdk \<Rightarrow> string \<Rightarrow> sdk" where
  "clearPendingFrameResponses s deviceId =
     (case pendingFrameResponses s deviceId of
        None \<Rightarrow> s
      | Some mapRef \<Rightarrow>
          (let s1 = foldl (\<lambda>st (frameIndex, w).
                             rejectPromise (clearTimeout st (w_timer w)) (w_promise w) ConnectionClosed)
                          s (responseMapAt s mapRef)
           in s1\<lparr>responseMaps := (responseMaps s1)(mapRef \<mapsto> [])\<rparr>))"

subsection \<open>Connecting and disconnecting\<close>

text \<open>The SDK object as constructed, and the state that \<open>connectDevice\<close> sets up for a device
  once its service and characteristics are found: the connection entry, frame index 0, the
  configured key, an empty buffer and a new empty map of pending frame responses.\<close>

definition newSdk :: sdk where
  "newSdk = \<lparr>connections = Map.empty, disconnectingDevices = {}, frameIndexes = Map.empty,
             dynamicKeys = Map.empty, dataBuffers = Map.empty,
             pendingFrameResponses = Map.empty, responseMaps = Map.empty,
             promises = Map.empty, timers = Map.empty, nextId = 0,
             emitted = [], written = []\<rparr>"

definition connectDevice_init :: "sdk \<Rightarrow> string \<Rightarrow> byte list \<Rightarrow> sdk" where
  "connectDevice_init s deviceId secretKey =
     s\<lparr>connections := (connections s)(deviceId \<mapsto> \<lparr>isConnected = True, status = CONNECTED\<rparr>),
       frameIndexes := (frameIndexes s)(deviceId \<mapsto> 0),
       dynamicKeys := (dynamicKeys s)(deviceId \<mapsto> secretKey),
       dataBuffers := (dataBuffers s)(deviceId \<mapsto> []),
       pendingFrameResponses := (pendingFrameResponses s)(deviceId \<mapsto> nextId s),
       responseMaps := (responseMaps s)(nextId s \<mapsto> []),
       nextId := nextId s + 1\<rparr>"

text \<open>The entries of the device that both disconnect paths delete.\<close>

definition deleteDeviceState :: "sdk \<Rightarrow> string \<Rightarrow> sdk" where
  "deleteDeviceState s deviceId =
     s\<lparr>frameIndexes := (frameIndexes s)(deviceId := None),
       dynamicKeys := (dynamicKeys s)(deviceId := None),
       dataBuffers := (dataBuffers s)(deviceId := None),
       pendingFrameResponses := (pendingFrameResponses s)(deviceId := None)\<rparr>"

text \<open>\<open>disconnectDevice\<close>, the disconnect asked for by the caller; \<open>bleDisconnectOk\<close> says
  whether \<open>BleClient.disconnect\<close> succeeds. The result is the error thrown, if any. The
  \<open>finally\<close> clause removes the device from \<open>disconnectingDevices\<close> on both ways out of the
  \<open>try\<close> block.\<close>

definition disconnectDevice :: "sdk \<Rightarrow> string \<Rightarrow> bool \<Rightarrow> sdkError option \<times> sdk" where
  "disconnectDevice s deviceId bleDisconnectOk =
     (case connections s deviceId of
        None \<Rightarrow> (None, s)
      | Some connection \<Rightarrow>
          if deviceId \<in> disconnectingDevices s then (None, s)
          else
            (let s1 = s\<lparr>disconnectingDevices := insert deviceId (disconnectingDevices s)\<rparr>;
                 s2 = s1\<lparr>connections :=
                           (connections s1)(deviceId \<mapsto> connection\<lparr>status := DISCONNECTING\<rparr>)\<rparr>;
                 s3 = clearPendingFrameResponses s2 deviceId
             in if \<not> bleDisconnectOk
                then (Some DisconnectFailed,
                      s3\<lparr>disconnectingDevices := disconnectingDevices s3 - {deviceId}\<rparr>)
                else
                  (let s4 = s3\<lparr>connections :=
                                 (connections s3)(deviceId \<mapsto>
                                    connection\<lparr>status := DISCONNECTED, isConnected := False\<rparr>)\<rparr>;
                       s5 = emitEvent s4 (DisconnectedEvent deviceId);
                       s6 = s5\<lparr>connections := (connections s5)(deviceId := None)\<rparr>;
                       s7 = deleteDeviceState s6 deviceId
                   in (None, s7\<lparr>disconnectingDevices := disconnectingDevices s7 - {deviceId}\<rparr>))))"

text \<open>\<open>_handleDeviceDisconnected\<close>, run by the disconnect callback given to
  \<open>BleClient.connect\<close> when the device drops the connection. It returns at once when the
  caller's disconnect is under way; its \<open>finally\<close> clause runs on every way out.\<close>

definition handleDeviceDisconnected :: "sdk \<Rightarrow> string \<Rightarrow> sdk" where
  "handleDeviceDisconnected s deviceId =
     (if deviceId \<in> disconnectingDevices s
      then s\<lparr>disconnectingDevices := disconnectingDevices s - {deviceId}\<rparr>
      else
        (let s1 = s\<lparr>disconnectingDevices := insert deviceId (disconnectingDevices s)\<rparr>;
             s2 = (case connections s1 deviceId of
                     None \<Rightarrow> s1
                   | Some connection \<Rightarrow>
                       s1\<lparr>connections :=
                            (connections s1)(deviceId \<mapsto>
                               connection\<lparr>status := DISCONNECTED, isConnected := False\<rparr>)\<rparr>);
             s3 = deleteDeviceState s2 deviceId;
             s4 = emitEvent s3 (DisconnectedEvent deviceId)
         in s4\<lparr>disconnectingDevices := disconnectingDevices s4 - {deviceId}\<rparr>))"

subsection \<open>Device reports (src/utils/CommandUtils.ts and src/BluetoothKeySDK.ts)\<close>

text \<open>The two members of \<open>BusinessCmd\<close> that \<open>isDeviceReport\<close> tests for.\<close>

definition UPLOAD_STATUS :: byte where
  "UPLOAD_STATUS = 0x07"

definition GET_SYS_PARAM :: byte where
  "GET_SYS_PARAM = 0x06"

definition parseLockState :: "byte \<Rightarrow> LockState" where
  "parseLockState lockStateValue =
     (if lockStateValue = 0xFF then UNCONNECTED
      else if lockStateValue = 0xFE then UNKNOWN
      else if lockStateValue = 0 then UNKNOWN_OPEN
      else if lockStateValue = 1 then UNKNOWN_CLOSED
      else if lockStateValue = 2 then UNLOCKED_OPEN
      else if lockStateValue = 3 then UNLOCKED_CLOSED
      else if lockStateValue = 4 then LOCKED_OPEN
      else if lockStateValue = 5 then LOCKED_CLOSED
      else UNKNOWN)"

definition isLockedByState :: "LockState \<Rightarrow> bool" where
  "isLockedByState lockState \<longleftrightarrow> lockState = LOCKED_OPEN \<or> lockState = LOCKED_CLOSED"

definition convertBatteryStateToLevel :: "byte \<Rightarrow> nat" where
  "convertBatteryStateToLevel batteryState =
     (if batteryState = 0 then 20
      else if batteryState = 1 then 60
      else if batteryState = 2 then 100
      else if batteryState = 3 then 100
      else 0)"

text \<open>\<open>uint8ArrayToNumber\<close>: \<open>result += array[i] << (i * 8)\<close>, where \<open><<\<close> takes the shift count
  modulo 32 and gives a signed 32-bit integer.\<close>

definition uint8ArrayToNumber :: "byte list \<Rightarrow> int" where
  "uint8ArrayToNumber array =
     foldl (\<lambda>result i. result + sint (push_bit ((i * 8) mod 32) (ucast (array ! i) :: 32 word)))
       0 [0..<length array]"

text \<open>\<open>validateResponse(response, expectedLength)\<close> with a non-zero expected length.\<close>

definition validateResponse :: "byte list \<Rightarrow> nat \<Rightarrow> bool" where
  "validateResponse response expectedLength \<longleftrightarrow>
     length response \<noteq> 0 \<and> length response = expectedLength"

text \<open>\<open>parseDeviceStatusReport\<close>; \<open>None\<close> when it throws (a length that is not 7 for a status
  report or not 8 for a device information report, or another command). The time stamp of the
  report is the time of parsing and is left out.\<close>

definition parseDeviceStatusReport :: "byte list \<Rightarrow> statusReport option" where
  "parseDeviceStatusReport bytes =
     (case bytes of
        [] \<Rightarrow> None
      | command # _ \<Rightarrow>
          (let fields =
                 (if command = UPLOAD_STATUS then
                    (if \<not> validateResponse bytes 7 then None
                     else Some (bytes ! 1, bytes ! 2, sliceArray bytes 3 7, None))
                  else if command = GET_SYS_PARAM then
                    (if \<not> validateResponse bytes 8 then None
                     else Some (bytes ! 2, bytes ! 3, sliceArray bytes 4 8, Some (bytes ! 1 = 1)))
                  else None)
           in case fields of
                None \<Rightarrow> None
              | Some (lockStateValue, batteryStateValue, lockIdBytes, operationResult) \<Rightarrow>
                  (let lockState = parseLockState lockStateValue
                   in Some \<lparr>r_command = command,
                            r_state = lockState,
                            r_isLocked = isLockedByState lockState,
                            r_batteryLevel = convertBatteryStateToLevel batteryStateValue,
                            r_isConnected = (\<not> list_all (\<lambda>b. b = 0xFF) lockIdBytes),
                            r_lockId = uint8ArrayToNumber lockIdBytes,
                            r_operationResult = operationResult\<rparr>)))"

definition isDeviceReport :: "byte list \<Rightarrow> bool" where
  "isDeviceReport bytes \<longleftrightarrow>
     (case bytes of [] \<Rightarrow> False
      | command # _ \<Rightarrow> command = UPLOAD_STATUS \<or> command = GET_SYS_PARAM)"

text \<open>\<open>handleDeviceReport\<close>: the report is parsed and the three report events are emitted, or,
  when parsing throws, an error event.\<close>

definition handleDeviceReport :: "sdk \<Rightarrow> string \<Rightarrow> byte list \<Rightarrow> sdk" where
  "handleDeviceReport s deviceId bytes =
     (case parseDeviceStatusReport bytes of
        None \<Rightarrow> emitEvent s (ErrorEvent deviceId)
      | Some report \<Rightarrow>
          (let s1 = emitEvent s (DeviceReportEvent deviceId bytes report);
               s2 = emitEvent s1 (LockStatusReportEvent deviceId bytes report)
           in emitEvent s2 (DeviceInfoReportEvent deviceId bytes report)))"

text \<open>The \<open>switch\<close> of \<open>handleDeviceActiveCommand\<close> that chooses the reply to a command.\<close>

definition activeCommandReply :: "byte \<Rightarrow> byte list" where
  "activeCommandReply command =
     (if command = UPLOAD_STATUS then [0x07, 0x01]
      else if command = GET_SYS_PARAM then [0x05, 0x01]
      else [command, 0x01])"

text \<open>\<open>handleDeviceActiveCommand\<close>: the reply is built with \<open>buildReplyPacket\<close> on the frame
  index of the message and written; an error on the way is caught and only logged.\<close>

definition handleDeviceActiveCommand ::
  "(byte list \<Rightarrow> byte list \<Rightarrow> byte list) \<Rightarrow> sdk \<Rightarrow> string \<Rightarrow> nat \<Rightarrow> byte list \<Rightarrow> sdk" where
  "handleDeviceActiveCommand aes s deviceId frameIndex bytes =
     (let command = (case bytes of [] \<Rightarrow> 0 | c # _ \<Rightarrow> c);
          replyData = activeCommandReply command;
          (replyPacket, s1) = buildReplyPacket aes s deviceId replyData frameIndex None
      in case replyPacket of
           Inl _ \<Rightarrow> s1
         | Inr packet \<Rightarrow> bleWrite s1 deviceId packet)"

text \<open>The reply to an authentication step: built on the frame index of the message and written.
  \<open>BleClient.write\<close> is taken to succeed.\<close>

definition sendReply ::
  "(byte list \<Rightarrow> byte list \<Rightarrow> byte list) \<Rightarrow> sdk \<Rightarrow> string \<Rightarrow> nat \<Rightarrow> byte list \<Rightarrow> sdk" where
  "sendReply aes s deviceId frameIndex replyData =
     (let (replyPacket, s1) = buildReplyPacket aes s deviceId replyData frameIndex None
      in case replyPacket of
           Inl _ \<Rightarrow> s1
         | Inr packet \<Rightarrow> bleWrite s1 deviceId packet)"

text \<open>\<open>handleRequestWithAckData\<close>, called for an inbound message of ack type
  \<open>REQUEST_WITH_ACK\<close> with its frame index, its first byte as \<open>command\<close> and its
  payload: a device report is announced and answered; the
  authentication steps \<open>0x02\<close>, \<open>0x03\<close> and \<open>0x04\<close> are answered, the last two after taking the
  new key; any other command resolves the pending waiter of its frame index. With an empty
  payload the step \<open>0x02\<close> throws before it replies. Completing the authentication promise
  is not modelled.\<close>

definition handleRequestWithAckData ::
  "(byte list \<Rightarrow> byte list \<Rightarrow> byte list) \<Rightarrow> sdk \<Rightarrow> string \<Rightarrow> nat \<Rightarrow> byte \<Rightarrow> byte list \<Rightarrow> sdk" where
  "handleRequestWithAckData aes s deviceId frameIndex command bytes =
     (if isDeviceReport bytes then
        handleDeviceActiveCommand aes (handleDeviceReport s deviceId bytes) deviceId frameIndex bytes
      else if command = 0x02 then
        (if bytes = [] then s
         else sendReply aes s deviceId frameIndex ([0x02] @ map (\<lambda>b. b XOR 0x5A) (drop 1 bytes)))
      else if command = 0x03 then
        (let newKey = drop 1 bytes;
             s1 = s\<lparr>dynamicKeys := (dynamicKeys s)(deviceId \<mapsto> newKey)\<rparr>
         in sendReply aes s1 deviceId frameIndex ([0x03] @ newKey))
      else if command = 0x04 then
        (let newKey = drop 1 bytes;
             s1 = s\<lparr>dynamicKeys := (dynamicKeys s)(deviceId \<mapsto> newKey)\<rparr>
         in sendReply aes s1 deviceId frameIndex ([0x04] @ newKey))
      else resolveFrameResponse s deviceId frameIndex bytes)"

text \<open>For stating what is written: the packet of an ACK reply with the default transport
  options, that is version 1, control byte \<open>0xFD\<close> (ACK, encrypted), and the application
  message encrypted with the device's key.\<close>

definition ackReplyPacket ::
  "(byte list \<Rightarrow> byte list \<Rightarrow> byte list) \<Rightarrow> byte list \<Rightarrow> byte list \<Rightarrow> nat \<Rightarrow> byte list" where
  "ackReplyPacket aes secretKey replyData frameIndex =
     PhysicalLayer_pack
       ([0x01, 0xFD] @ aes (normalizeKey secretKey) (ApplicationLayer_pack replyData (int frameIndex)))"

definition reportEvents :: "string \<Rightarrow> byte list \<Rightarrow> statusReport \<Rightarrow> event list" where
  "reportEvents deviceId bytes report =
     [DeviceReportEvent deviceId bytes report, LockStatusReportEvent deviceId bytes report,
      DeviceInfoReportEvent deviceId bytes report]"

subsection \<open>Receive path\<close>

text \<open>\<open>handleReceivedData\<close> with \<open>_processBufferedFrames\<close> inlined: the chunk is appended to
  the device's buffer (\<open>dataBuffers.get(deviceId) || []\<close>), the buffer is scanned by
  \<open>unpackWithRemain\<close>, the remainder is stored back, and the complete frames are handed on in
  order. The result is the new state and the frames handed on by this call; what is done with a
  frame, and the idle timer that is restarted, are not part of this function's model.\<close>

definition bufferOf :: "sdk \<Rightarrow> string \<Rightarrow> byte list" where
  "bufferOf s deviceId = (case dataBuffers s deviceId of None \<Rightarrow> [] | Some b \<Rightarrow> b)"

definition handleReceivedData :: "sdk \<Rightarrow> string \<Rightarrow> byte list \<Rightarrow> sdk \<times> byte list list" where
  "handleReceivedData s deviceId chunk =
     (let buffer = bufferOf s deviceId @ chunk;
          s1 = s\<lparr>dataBuffers := (dataBuffers s)(deviceId \<mapsto> buffer)\<rparr>;
          (frames, remain) = unpackWithRemain (bufferOf s1 deviceId)
      in (s1\<lparr>dataBuffers := (dataBuffers s1)(deviceId \<mapsto> remain)\<rparr>, frames))"

text \<open>A sequence of notifications for one device, delivered chunk by chunk.\<close>

fun receiveChunks :: "sdk \<Rightarrow> string \<Rightarrow> byte list list \<Rightarrow> sdk \<times> byte list list" where
  "receiveChunks s deviceId [] = (s, [])"
| "receiveChunks s deviceId (c # cs) =
     (let (s1, frames1) = handleReceivedData s deviceId c;
          (s2, frames2) = receiveChunks s1 deviceId cs
      in (s2, frames1 @ frames2))"

section \<open>Properties of the physical layer\<close>

declare unpackLoop.simps [simp del]

subsection \<open>One step of the scan loop, by case\<close>

lemma unpackLoop_stop:
  "\<not> i + 5 \<le> length data \<Longrightarrow> unpackLoop data i acc = (acc, i)"
  by (subst unpackLoop.simps) simp

lemma unpackLoop_skip:
  "i + 5 \<le> length data \<Longrightarrow> \<not> headerAt data i \<Longrightarrow>
   unpackLoop data i acc = unpackLoop data (i + 1) acc"
  by (subst unpackLoop.simps) (auto simp: headerAt_def header_def)

lemma unpackLoop_incomplete:
  "i + 5 \<le> length data \<Longrightarrow> headerAt data i \<Longrightarrow> i + totalLenAt data i > length data \<Longrightarrow>
   unpackLoop data i acc = (acc, i)"
  by (subst unpackLoop.simps) (auto simp: headerAt_def header_def totalLenAt_def Let_def)

lemma unpackLoop_badsum:
  "i + 5 \<le> length data \<Longrightarrow> headerAt data i \<Longrightarrow> i + totalLenAt data i \<le> length data \<Longrightarrow>
   \<not> checksumOkAt data i \<Longrightarrow>
   unpackLoop data i acc = unpackLoop data (i + 1) acc"
  by (subst unpackLoop.simps)
     (auto simp: headerAt_def header_def totalLenAt_def checksumOkAt_def Let_def)

lemma unpackLoop_frame:
  "i + 5 \<le> length data \<Longrightarrow> headerAt data i \<Longrightarrow> i + totalLenAt data i \<le> length data \<Longrightarrow>
   checksumOkAt data i \<Longrightarrow>
   unpackLoop data i acc =
     unpackLoop data (i + totalLenAt data i) (acc @ [sliceArray data i (i + totalLenAt data i)])"
  by (subst unpackLoop.simps)
     (auto simp: headerAt_def header_def totalLenAt_def checksumOkAt_def Let_def)

lemma unpackLoop_induct [consumes 0, case_names stop skip incomplete badsum frame]:
  assumes "\<And>i acc. \<not> i + 5 \<le> length data \<Longrightarrow> P i acc"
    and "\<And>i acc. i + 5 \<le> length data \<Longrightarrow> \<not> headerAt data i \<Longrightarrow> P (i + 1) acc \<Longrightarrow> P i acc"
    and "\<And>i acc. i + 5 \<le> length data \<Longrightarrow> headerAt data i \<Longrightarrow>
           i + totalLenAt data i > length data \<Longrightarrow> P i acc"
    and "\<And>i acc. i + 5 \<le> length data \<Longrightarrow> headerAt data i \<Longrightarrow>
           i + totalLenAt data i \<le> length data \<Longrightarrow> \<not> checksumOkAt data i \<Longrightarrow>
           P (i + 1) acc \<Longrightarrow> P i acc"
    and "\<And>i acc. i + 5 \<le> length data \<Longrightarrow> headerAt data i \<Longrightarrow>
           i + totalLenAt data i \<le> length data \<Longrightarrow> checksumOkAt data i \<Longrightarrow>
           P (i + totalLenAt data i) (acc @ [sliceArray data i (i + totalLenAt data i)]) \<Longrightarrow>
           P i acc"
  shows "P i acc"
proof (induction "length data - i" arbitrary: i acc rule: less_induct)
  case (less i acc)
  show ?case
  proof (cases "i + 5 \<le> length data")
    case False
    then show ?thesis by (rule assms(1))
  next
    case inb: True
    show ?thesis
    proof (cases "headerAt data i")
      case False
      have "P (i + 1) acc" by (rule less) (use inb in simp)
      with inb False show ?thesis by (rule assms(2))
    next
      case hd: True
      show ?thesis
      proof (cases "i + totalLenAt data i \<le> length data")
        case False
        with inb hd show ?thesis by (intro assms(3)) simp_all
      next
        case compl: True
        show ?thesis
        proof (cases "checksumOkAt data i")
          case False
          have "P (i + 1) acc" by (rule less) (use inb in simp)
          with inb hd compl False show ?thesis by (rule assms(4))
        next
          case True
          have "P (i + totalLenAt data i) (acc @ [sliceArray data i (i + totalLenAt data i)])"
            by (rule less) (use inb in \<open>simp add: totalLenAt_def\<close>)
          with inb hd compl True show ?thesis by (rule assms(5))
        qed
      qed
    qed
  qed
qed

text \<open>Scanning behind a prefix: the loop at cursor \<open>length p + i\<close> of \<open>p @ d\<close> does what
  the loop at cursor \<open>i\<close> of \<open>d\<close> does.\<close>

lemma headerAt_shift: "headerAt (p @ d) (length p + i) = headerAt d i"
  by (simp add: headerAt_def nth_append add.assoc)

lemma totalLenAt_shift: "totalLenAt (p @ d) (length p + i) = totalLenAt d i"
  by (simp add: totalLenAt_def nth_append add.assoc)

lemma sliceArray_shift: "sliceArray (p @ d) (length p + i) (length p + i + n) = sliceArray d i (i + n)"
  by (simp add: sliceArray_def)

lemma checksumOkAt_shift: "checksumOkAt (p @ d) (length p + i) = checksumOkAt d i"
proof -
  have "sliceArray (p @ d) (length p + i) (length p + i + totalLenAt d i - 1)
        = sliceArray d i (i + totalLenAt d i - 1)"
    by (simp add: sliceArray_def)
  moreover have "(p @ d) ! (length p + i + totalLenAt d i - 1) = d ! (i + totalLenAt d i - 1)"
    by (simp add: nth_append totalLenAt_def)
  ultimately show ?thesis
    by (simp add: checksumOkAt_def totalLenAt_shift)
qed

lemma unpackLoop_shift:
  "unpackLoop (p @ d) (length p + i) (pre @ acc)
   = (case unpackLoop d i acc of (fs, j) \<Rightarrow> (pre @ fs, length p + j))"
proof (induction i acc rule: unpackLoop_induct [of d])
  case (stop i acc)
  then show ?case by (simp add: unpackLoop_stop)
next
  case (skip i acc)
  then show ?case
    using unpackLoop_skip [of "length p + i" "p @ d" "pre @ acc"]
    by (simp add: unpackLoop_skip headerAt_shift add.assoc)
next
  case (incomplete i acc)
  then show ?case
    using unpackLoop_incomplete [of "length p + i" "p @ d" "pre @ acc"]
    by (simp add: unpackLoop_incomplete headerAt_shift totalLenAt_shift add.assoc)
next
  case (badsum i acc)
  then show ?case
    using unpackLoop_badsum [of "length p + i" "p @ d" "pre @ acc"]
    by (simp add: unpackLoop_badsum headerAt_shift totalLenAt_shift checksumOkAt_shift add.assoc)
next
  case (frame i acc)
  then show ?case
    using unpackLoop_frame [of "length p + i" "p @ d" "pre @ acc"]
      sliceArray_shift [of p d i "totalLenAt d i"]
    by (simp add: unpackLoop_frame headerAt_shift totalLenAt_shift checksumOkAt_shift add.assoc)
qed


lemma headerAt_append: "i + 4 \<le> length a \<Longrightarrow> headerAt (a @ b) i = headerAt a i"
  by (simp add: headerAt_def nth_append)

lemma totalLenAt_append: "i + 4 \<le> length a \<Longrightarrow> totalLenAt (a @ b) i = totalLenAt a i"
  by (simp add: totalLenAt_def nth_append)

lemma sliceArray_append: "i + n \<le> length a \<Longrightarrow> sliceArray (a @ b) i (i + n) = sliceArray a i (i + n)"
  by (simp add: sliceArray_def)

lemma checksumOkAt_append:
  assumes "i + 4 \<le> length a" and "i + totalLenAt a i \<le> length a"
  shows "checksumOkAt (a @ b) i = checksumOkAt a i"
proof -
  have t: "totalLenAt (a @ b) i = totalLenAt a i"
    using assms(1) by (rule totalLenAt_append)
  have "sliceArray (a @ b) i (i + totalLenAt a i - 1) = sliceArray a i (i + totalLenAt a i - 1)"
    using assms(2) by (simp add: sliceArray_def)
  moreover have "(a @ b) ! (i + totalLenAt a i - 1) = a ! (i + totalLenAt a i - 1)"
    using assms(2) by (simp add: nth_append totalLenAt_def)
  ultimately show ?thesis
    by (simp add: checksumOkAt_def t)
qed

lemma unpackLoop_extend:
  "unpackLoop a i acc = (fs, j) \<Longrightarrow> unpackLoop (a @ b) i acc = unpackLoop (a @ b) j fs"
proof (induction i acc rule: unpackLoop_induct [of a])
  case (stop i acc)
  then show ?case by (simp add: unpackLoop_stop)
next
  case (skip i acc)
  then show ?case
    using unpackLoop_skip [of i "a @ b" acc]
    by (simp add: unpackLoop_skip headerAt_append)
next
  case (incomplete i acc)
  then show ?case by (simp add: unpackLoop_incomplete)
next
  case (badsum i acc)
  then show ?case
    using unpackLoop_badsum [of i "a @ b" acc]
    by (simp add: unpackLoop_badsum headerAt_append totalLenAt_append checksumOkAt_append)
next
  case (frame i acc)
  then show ?case
    using unpackLoop_frame [of i "a @ b" acc] sliceArray_append [of i "totalLenAt a i" a b]
    by (simp add: unpackLoop_frame headerAt_append totalLenAt_append checksumOkAt_append)
qed

lemma unpackLoop_index:
  "unpackLoop d i acc = (fs, j) \<Longrightarrow> i \<le> length d \<Longrightarrow> i \<le> j \<and> j \<le> length d"
proof (induction i acc rule: unpackLoop_induct [of d])
  case (stop i acc)
  then show ?case by (simp add: unpackLoop_stop)
next
  case (skip i acc)
  then show ?case by (simp add: unpackLoop_skip)
next
  case (incomplete i acc)
  then show ?case by (simp add: unpackLoop_incomplete)
next
  case (badsum i acc)
  then show ?case by (simp add: unpackLoop_badsum)
next
  case (frame i acc)
  then show ?case by (simp add: unpackLoop_frame)
qed

lemma unpackWithRemain_append:
  "unpackWithRemain (a @ b) =
     (let (f1, r1) = unpackWithRemain a; (f2, r2) = unpackWithRemain (r1 @ b)
      in (f1 @ f2, r2))"
proof -
  obtain f1 j where l1: "unpackLoop a 0 [] = (f1, j)" by (cases "unpackLoop a 0 []")
  obtain f2 k where l2: "unpackLoop (drop j a @ b) 0 [] = (f2, k)"
    by (cases "unpackLoop (drop j a @ b) 0 []")
  from l1 have j: "j \<le> length a" using unpackLoop_index [of a 0 "[]" f1 j] by simp
  have split: "take j a @ (drop j a @ b) = a @ b" by simp
  have "unpackLoop (take j a @ (drop j a @ b)) j f1 = (f1 @ f2, j + k)"
  proof -
    have "length (take j a) = j" using j by simp
    with unpackLoop_shift [of "take j a" "drop j a @ b" 0 f1 "[]"] l2 show ?thesis
      by (simp del: length_take append_take_drop_id append_assoc)
  qed
  then have "unpackLoop (a @ b) j f1 = (f1 @ f2, j + k)"
    by (simp only: split)
  with unpackLoop_extend [OF l1, of b]
  have whole: "unpackLoop (a @ b) 0 [] = (f1 @ f2, j + k)" by simp
  have "drop (j + k) (a @ b) = drop k (drop j a @ b)"
    using j by (simp add: add.commute)
  with whole l1 l2 show ?thesis
    by (simp add: unpackWithRemain_def)
qed


lemma length_PhysicalLayer_pack: "length (PhysicalLayer_pack P) = length P + 5"
  by (simp add: PhysicalLayer_pack_def Let_def header_def intToLittleEndian_def)

lemma upt_0_2: "[0..<2] = [0, Suc 0]"
  by (simp add: numeral_2_eq_2)

lemma sumBytes_append: "sumBytes (xs @ ys) = sumBytes xs + sumBytes ys"
  by (simp add: sumBytes_def)

lemma packHead_bytes:
  "packHead n = [0xA5, 0x5A, of_nat ((n + 1) mod 256), of_nat ((n + 1) div 256 mod 256)]"
  by (simp add: packHead_def header_def intToLittleEndian_def upt_0_2)

lemma totalLenAt_0: "totalLenAt d 0 = 4 + (unat (d ! 2) + unat (d ! 3) * 256)"
  unfolding totalLenAt_def by (simp only: add_0)

lemma PhysicalLayer_pack_shape:
  "PhysicalLayer_pack P = (packHead (length P) @ P) @ [of_nat (packSum P)]"
  by (simp add: PhysicalLayer_pack_def Let_def packHead_def packSum_def sumBytes_append)

lemma length_packHead: "length (packHead n) = 4"
  by (simp add: packHead_bytes)


lemma le_field: "n < 65536 \<Longrightarrow> n mod 256 + n div 256 mod 256 * 256 = (n::nat)"
  by simp

lemma lengthField_pack:
  assumes "length P < 65535"
  shows "unat (PhysicalLayer_pack P ! 2) + unat (PhysicalLayer_pack P ! 3) * 256 = length P + 1"
proof -
  have "(length P + 1) mod 256 + (length P + 1) div 256 mod 256 * 256 = length P + 1"
    using assms by (intro le_field) simp
  moreover have "PhysicalLayer_pack P ! 2 = of_nat ((length P + 1) mod 256)"
    and "PhysicalLayer_pack P ! 3 = of_nat ((length P + 1) div 256 mod 256)"
    by (simp_all add: PhysicalLayer_pack_shape packHead_bytes)
  ultimately show ?thesis
    by (simp add: unat_of_nat)
qed

lemma totalLenAt_pack:
  assumes "length P < 65535"
  shows "totalLenAt (PhysicalLayer_pack P) 0 = length P + 5"
  unfolding totalLenAt_0 using lengthField_pack [OF assms] by simp

lemma checksumOkAt_pack:
  assumes "length P < 65535"
  shows "checksumOkAt (PhysicalLayer_pack P) 0"
proof -
  let ?d = "PhysicalLayer_pack P"
  let ?body = "packHead (length P) @ P"
  have t: "totalLenAt ?d 0 = length P + 5" using assms by (rule totalLenAt_pack)
  have lb: "length ?body = length P + 4" by (simp add: length_packHead)
  have "sliceArray ?d 0 (length ?body) = ?body"
    unfolding PhysicalLayer_pack_shape sliceArray_def by simp
  then have s: "sumBytes (sliceArray ?d 0 (length P + 4)) mod 256 = packSum P"
    unfolding lb by (simp add: sumBytes_append packSum_def)
  have "?d ! (length ?body) = of_nat (packSum P)"
    unfolding PhysicalLayer_pack_shape by (rule nth_append_length)
  then have "unat (?d ! (length P + 4)) = packSum P"
    unfolding lb by (simp add: unat_of_nat packSum_def)
  then have c: "sumBytes (sliceArray ?d 0 (length P + 4)) mod 256 = unat (?d ! (length P + 4))"
    using s by simp
  have t1: "0 + totalLenAt ?d 0 - 1 = length P + 4" using t by simp
  show ?thesis
    unfolding checksumOkAt_def t1 by (rule c)
qed

lemma unpackWithRemain_pack:
  assumes "length P < 65535"
  shows "unpackWithRemain (PhysicalLayer_pack P) = ([PhysicalLayer_pack P], [])"
proof -
  let ?d = "PhysicalLayer_pack P"
  have len: "length ?d = length P + 5" by (rule length_PhysicalLayer_pack)
  have t: "totalLenAt ?d 0 = length P + 5" using assms by (rule totalLenAt_pack)
  have h: "headerAt ?d 0" by (simp add: headerAt_def PhysicalLayer_pack_shape packHead_bytes)
  have c: "checksumOkAt ?d 0" using assms by (rule checksumOkAt_pack)
  have "unpackLoop ?d 0 [] = unpackLoop ?d (length P + 5) [sliceArray ?d 0 (length P + 5)]"
    using unpackLoop_frame [of 0 ?d "[]"] h c t len by simp
  also have "sliceArray ?d 0 (length P + 5) = ?d"
    using len by (simp add: sliceArray_def)
  also have "unpackLoop ?d (length P + 5) [?d] = ([?d], length P + 5)"
    using len by (simp add: unpackLoop_stop)
  finally show ?thesis
    using len by (simp add: unpackWithRemain_def)
qed

lemma physicalFramePayload_pack:
  assumes "length P < 65535"
  shows "physicalFramePayload (PhysicalLayer_pack P) = Some P"
proof -
  let ?d = "PhysicalLayer_pack P"
  have len: "length ?d = length P + 5" by (rule length_PhysicalLayer_pack)
  have f: "unat (?d ! 2) + unat (?d ! 3) * 256 = length P + 1"
    using assms by (rule lengthField_pack)
  have "drop (length (packHead (length P))) ?d = P @ [of_nat (packSum P)]"
    unfolding PhysicalLayer_pack_shape by simp
  then have "sliceArray ?d 4 (4 + (length P + 1) - 1) = P"
    unfolding length_packHead by (simp add: sliceArray_def)
  with f len show ?thesis
    by (simp add: physicalFramePayload_def Let_def)
qed


subsection \<open>Frames returned by the scan\<close>

lemma unpackLoop_no_header:
  "(\<And>k. i \<le> k \<Longrightarrow> k + 5 \<le> length data \<Longrightarrow> \<not> headerAt data k) \<Longrightarrow>
   fst (unpackLoop data i acc) = acc"
proof (induction i acc rule: unpackLoop_induct [of data])
  case (stop i acc)
  then show ?case by (simp add: unpackLoop_stop)
next
  case (skip i acc)
  then show ?case by (simp add: unpackLoop_skip)
next
  case (incomplete i acc)
  then show ?case by (simp add: unpackLoop_incomplete)
next
  case (badsum i acc)
  from badsum(1,2) badsum.prems [of i] show ?case by simp
next
  case (frame i acc)
  from frame(1,2) frame.prems [of i] show ?case by simp
qed

text \<open>A candidate cut out of the buffer has the header, length field and checksum status
  that the loop saw at its position.\<close>

lemma candidate_split:
  assumes "i + n \<le> length data"
  shows "data = take i data @ (sliceArray data i (i + n) @ drop (i + n) data)"
    and "length (take i data) = i" and "length (sliceArray data i (i + n)) = n"
proof -
  have "drop (i + n) data = drop n (drop i data)" by (simp add: add.commute)
  then have "sliceArray data i (i + n) @ drop (i + n) data = drop i data"
    unfolding sliceArray_def by (simp del: drop_drop)
  then show "data = take i data @ (sliceArray data i (i + n) @ drop (i + n) data)" by simp
  show "length (take i data) = i" using assms by simp
  show "length (sliceArray data i (i + n)) = n" using assms by (simp add: sliceArray_def)
qed

lemma candidate_status:
  assumes "i + totalLenAt data i \<le> length data"
  defines "c \<equiv> sliceArray data i (i + totalLenAt data i)"
  shows "headerAt c 0 = headerAt data i" and "totalLenAt c 0 = totalLenAt data i"
    and "checksumOkAt c 0 = checksumOkAt data i"
proof -
  let ?p = "take i data" and ?r = "drop (i + totalLenAt data i) data"
  have d: "data = ?p @ (c @ ?r)" and lp: "length ?p = i" and lc: "length c = totalLenAt data i"
    unfolding c_def using candidate_split [OF assms(1)] by blast+
  have four: "0 + 4 \<le> length c" unfolding lc by (simp add: totalLenAt_def)
  have h: "headerAt data i = headerAt (c @ ?r) 0"
    using headerAt_shift [of ?p "c @ ?r" 0] d lp by simp
  then show "headerAt c 0 = headerAt data i"
    using headerAt_append [OF four] by simp
  have t: "totalLenAt data i = totalLenAt (c @ ?r) 0"
    using totalLenAt_shift [of ?p "c @ ?r" 0] d lp by simp
  then show tc: "totalLenAt c 0 = totalLenAt data i"
    using totalLenAt_append [OF four] by simp
  have "checksumOkAt data i = checksumOkAt (c @ ?r) 0"
    using checksumOkAt_shift [of ?p "c @ ?r" 0] d lp by simp
  moreover have "checksumOkAt (c @ ?r) 0 = checksumOkAt c 0"
    by (rule checksumOkAt_append [OF four]) (simp add: tc lc)
  ultimately show "checksumOkAt c 0 = checksumOkAt data i" by simp
qed

lemma unpackLoop_valid:
  "f \<in> set (fst (unpackLoop data i acc)) \<Longrightarrow> f \<in> set acc \<or> validFrame f"
proof (induction i acc rule: unpackLoop_induct [of data])
  case (stop i acc)
  then show ?case by (simp add: unpackLoop_stop)
next
  case (skip i acc)
  then show ?case by (simp add: unpackLoop_skip)
next
  case (incomplete i acc)
  then show ?case by (simp add: unpackLoop_incomplete)
next
  case (badsum i acc)
  then show ?case by (simp add: unpackLoop_badsum)
next
  case (frame i acc)
  let ?c = "sliceArray data i (i + totalLenAt data i)"
  have "validFrame ?c"
    using candidate_status [OF frame(3)] candidate_split(3) [OF frame(3)] frame(2,4)
    by (simp add: validFrame_def)
  with frame show ?case by (auto simp: unpackLoop_frame)
qed

lemma PhysicalLayer_unpack_valid: "f \<in> set (PhysicalLayer_unpack data) \<Longrightarrow> validFrame f"
  using unpackLoop_valid [of f data 0 "[]"]
  by (simp add: PhysicalLayer_unpack_def unpackWithRemain_def split: prod.splits)


subsection \<open>Feeding the reassembler chunk by chunk\<close>

lemma unpackWithRemain_Nil: "unpackWithRemain [] = ([], [])"
  by (simp add: unpackWithRemain_def unpackLoop_stop)

lemma unpackWithRemain_remain_stable:
  assumes "unpackWithRemain d = (fs, r)"
  shows "unpackWithRemain r = ([], r)"
proof -
  obtain f2 r2 where r: "unpackWithRemain r = (f2, r2)" by (cases "unpackWithRemain r")
  from unpackWithRemain_append [of d "[]"] assms r have "(fs, r) = (fs @ f2, r2)" by simp
  with r show ?thesis by simp
qed

lemma handleReceivedData_eq:
  "handleReceivedData s deviceId chunk =
     (s\<lparr>dataBuffers := (dataBuffers s)(deviceId \<mapsto> snd (unpackWithRemain (bufferOf s deviceId @ chunk)))\<rparr>,
      fst (unpackWithRemain (bufferOf s deviceId @ chunk)))"
  by (simp add: handleReceivedData_def Let_def bufferOf_def split: prod.splits)

lemma receiveChunks_general:
  assumes "unpackWithRemain (bufferOf s deviceId) = ([], bufferOf s deviceId)"
    and "receiveChunks s deviceId chunks = (s', frames)"
  shows "frames = fst (unpackWithRemain (bufferOf s deviceId @ concat chunks)) \<and>
         bufferOf s' deviceId = snd (unpackWithRemain (bufferOf s deviceId @ concat chunks))"
  using assms
proof (induction chunks arbitrary: s s' frames)
  case Nil
  then show ?case by simp
next
  case (Cons c cs)
  let ?b = "bufferOf s deviceId"
  obtain f1 r1 where u1: "unpackWithRemain (?b @ c) = (f1, r1)"
    by (cases "unpackWithRemain (?b @ c)")
  let ?s1 = "s\<lparr>dataBuffers := (dataBuffers s)(deviceId \<mapsto> r1)\<rparr>"
  obtain s2 f2 where rest: "receiveChunks ?s1 deviceId cs = (s2, f2)"
    by (cases "receiveChunks ?s1 deviceId cs")
  have b1: "bufferOf ?s1 deviceId = r1" by (simp add: bufferOf_def)
  have stable: "unpackWithRemain (bufferOf ?s1 deviceId) = ([], bufferOf ?s1 deviceId)"
    unfolding b1 using u1 by (rule unpackWithRemain_remain_stable)
  from Cons.IH [OF stable rest] have ih:
    "f2 = fst (unpackWithRemain (r1 @ concat cs))"
    "bufferOf s2 deviceId = snd (unpackWithRemain (r1 @ concat cs))"
    unfolding b1 by simp_all
  from Cons.prems(2) u1 rest have res: "s' = s2" "frames = f1 @ f2"
    by (simp_all add: handleReceivedData_eq)
  have "unpackWithRemain ((?b @ c) @ concat cs)
        = (f1 @ fst (unpackWithRemain (r1 @ concat cs)), snd (unpackWithRemain (r1 @ concat cs)))"
    unfolding unpackWithRemain_append [of "?b @ c" "concat cs"] u1
    by (simp split: prod.splits)
  with ih res show ?case by simp
qed

text \<open>C5. Feeding consecutive chunks to the reassembler of a device whose buffer is empty
  (each step scans the previous remainder followed by the next chunk) hands on exactly the
  frames, in order, and leaves exactly the remainder, that one call of \<open>unpackWithRemain\<close> on
  the concatenation of the chunks gives.\<close>

theorem C5_chunked_equals_whole:
  assumes "bufferOf s deviceId = []"
    and "receiveChunks s deviceId chunks = (s', frames)"
  shows "frames = fst (unpackWithRemain (concat chunks)) \<and>
         bufferOf s' deviceId = snd (unpackWithRemain (concat chunks))"
  using receiveChunks_general [of s deviceId chunks s' frames] assms
  by (simp add: unpackWithRemain_Nil)

theorem C5_chunked_equals_whole_witness:
  "bufferOf (connectDevice_init newSdk ''lock-1'' []) ''lock-1'' = [] \<and>
   snd (receiveChunks (connectDevice_init newSdk ''lock-1'' []) ''lock-1''
          [ [0xA5, 0x5A, 0x02], [0x00, 0x01], [0x02, 0x07] ])
     = fst (unpackWithRemain (concat [ [0xA5, 0x5A, 0x02], [0x00, 0x01], [0x02, 0x07] ])) \<and>
   bufferOf (fst (receiveChunks (connectDevice_init newSdk ''lock-1'' []) ''lock-1''
                    [ [0xA5, 0x5A, 0x02], [0x00, 0x01], [0x02, 0x07] ])) ''lock-1''
     = snd (unpackWithRemain (concat [ [0xA5, 0x5A, 0x02], [0x00, 0x01], [0x02, 0x07] ]))"
proof -
  let ?s = "connectDevice_init newSdk ''lock-1'' []"
  let ?cs = "[ [0xA5, 0x5A, 0x02], [0x00, 0x01], [0x02, 0x07] ] :: byte list list"
  have h: "bufferOf ?s ''lock-1'' = []"
    by (simp add: bufferOf_def connectDevice_init_def)
  from C5_chunked_equals_whole [OF h, of ?cs "fst (receiveChunks ?s ''lock-1'' ?cs)"
      "snd (receiveChunks ?s ''lock-1'' ?cs)"]
  have "snd (receiveChunks ?s ''lock-1'' ?cs) = fst (unpackWithRemain (concat ?cs)) \<and>
        bufferOf (fst (receiveChunks ?s ''lock-1'' ?cs)) ''lock-1''
          = snd (unpackWithRemain (concat ?cs))"
    by simp
  with h show ?thesis by (intro conjI) simp_all
qed

text \<open>Three notifications that cut a frame in two places and bring one more byte.\<close>

lemma C5_example:
  "snd (receiveChunks (connectDevice_init newSdk ''lock-1'' []) ''lock-1''
          [ [0xA5, 0x5A, 0x02], [0x00, 0x01], [0x02, 0x07] ])
     = [ [0xA5, 0x5A, 0x02, 0x00, 0x01, 0x02] ] \<and>
   bufferOf (fst (receiveChunks (connectDevice_init newSdk ''lock-1'' []) ''lock-1''
                    [ [0xA5, 0x5A, 0x02], [0x00, 0x01], [0x02, 0x07] ])) ''lock-1'' = [0x07]"
proof -
  have u1: "unpackWithRemain [0xA5, 0x5A, 0x02] = ([], [0xA5, 0x5A, 0x02])"
    by code_simp
  have u2: "unpackWithRemain [0xA5, 0x5A, 0x02, 0x00, 0x01] = ([], [0xA5, 0x5A, 0x02, 0x00, 0x01])"
    by code_simp
  have u3: "unpackWithRemain [0xA5, 0x5A, 0x02, 0x00, 0x01, 0x02, 0x07]
            = ([ [0xA5, 0x5A, 0x02, 0x00, 0x01, 0x02] ], [0x07])"
    by code_simp
  show ?thesis
    by (simp add: handleReceivedData_eq bufferOf_def connectDevice_init_def newSdk_def u1 u2 u3)
qed


subsection \<open>Round trip\<close>

text \<open>C3. A packed frame is five bytes longer than its payload. For a payload of at most
  65534 bytes (so that payload length + 1 fits the two-byte length field), scanning the packed
  frame returns that one frame whole, header and checksum included, with nothing left over,
  and the payload cut out of it by the frame handler is the payload that was packed.\<close>

theorem C3_physical_roundtrip:
  "length (PhysicalLayer_pack P) = length P + 5 \<and>
   (length P < 65535 \<longrightarrow>
      unpackWithRemain (PhysicalLayer_pack P) = ([PhysicalLayer_pack P], []) \<and>
      map physicalFramePayload (PhysicalLayer_unpack (PhysicalLayer_pack P)) = [Some P])"
  by (simp add: length_PhysicalLayer_pack unpackWithRemain_pack physicalFramePayload_pack
      PhysicalLayer_unpack_def)

theorem C3_physical_roundtrip_witness:
  "length [0x08, 0x00, 0xD2 :: byte] < 65535 \<and>
   PhysicalLayer_pack [0x08, 0x00, 0xD2] = [0xA5, 0x5A, 0x04, 0x00, 0x08, 0x00, 0xD2, 0xDD] \<and>
   unpackWithRemain [0xA5, 0x5A, 0x04, 0x00, 0x08, 0x00, 0xD2, 0xDD]
     = ([ [0xA5, 0x5A, 0x04, 0x00, 0x08, 0x00, 0xD2, 0xDD] ], []) \<and>
   map physicalFramePayload (PhysicalLayer_unpack [0xA5, 0x5A, 0x04, 0x00, 0x08, 0x00, 0xD2, 0xDD])
     = [Some [0x08, 0x00, 0xD2] ]"
proof -
  have p: "PhysicalLayer_pack [0x08, 0x00, 0xD2] = [0xA5, 0x5A, 0x04, 0x00, 0x08, 0x00, 0xD2, 0xDD]"
    by (simp add: PhysicalLayer_pack_shape packHead_bytes packSum_def sumBytes_def)
  show ?thesis
    using C3_physical_roundtrip [of "[0x08, 0x00, 0xD2]"] unfolding p by simp
qed

lemma sumBytes_zeros: "sumBytes (replicate n 0) = 0"
  by (simp add: sumBytes_def)

text \<open>A payload of zeros whose length + 1 is a multiple of 65536: the length field wraps to 0.\<close>

lemma pack_zeros_wrapped:
  assumes "(n + 1) mod 256 = 0" and "(n + 1) div 256 mod 256 = 0"
  shows "PhysicalLayer_pack (replicate n 0) = [0xA5, 0x5A, 0, 0] @ replicate n 0 @ [0xFF]"
  using assms
  by (simp add: PhysicalLayer_pack_shape packHead_bytes packSum_def sumBytes_zeros)
     (simp add: sumBytes_def)

lemma unpack_zeros_wrapped:
  assumes "(n + 1) mod 256 = 0" and "(n + 1) div 256 mod 256 = 0"
  shows "PhysicalLayer_unpack (PhysicalLayer_pack (replicate n 0)) = []"
proof -
  let ?d = "PhysicalLayer_pack (replicate n 0)"
  have shape: "?d = [0xA5, 0x5A, 0, 0] @ replicate n 0 @ [0xFF]"
    using assms by (rule pack_zeros_wrapped)
  have len: "length ?d = n + 5" by (simp add: length_PhysicalLayer_pack)
  have h: "headerAt ?d 0" by (simp add: headerAt_def shape)
  have t: "totalLenAt ?d 0 = 4" by (simp add: totalLenAt_0 shape)
  have "sliceArray ?d 0 3 = [0xA5, 0x5A, 0]" by (simp add: sliceArray_def shape)
  moreover have "?d ! 3 = 0" by (simp add: shape)
  ultimately have c: "\<not> checksumOkAt ?d 0"
    by (simp add: checksumOkAt_def t sumBytes_def)
  have step: "unpackLoop ?d 0 [] = unpackLoop ?d 1 []"
    using unpackLoop_badsum [of 0 ?d "[]"] h t c len by simp
  have tail: "tl ?d = [0x5A, 0, 0] @ replicate n 0 @ [0xFF]" by (simp add: shape)
  have nohdr: "\<not> headerAt ?d k" if "1 \<le> k" "k + 5 \<le> length ?d" for k
  proof -
    from that have "?d ! k = tl ?d ! (k - 1)" by (simp add: nth_tl)
    moreover from that have "tl ?d ! (k - 1) \<in> set (tl ?d)" by (intro nth_mem) simp
    moreover have "0xA5 \<notin> set (tl ?d)" unfolding tail by simp
    ultimately show ?thesis by (auto simp: headerAt_def)
  qed
  have "fst (unpackLoop ?d 1 []) = []"
    by (rule unpackLoop_no_header) (use nohdr in simp)
  with step show ?thesis
    by (cases "unpackLoop ?d 1 []") (simp add: PhysicalLayer_unpack_def unpackWithRemain_def)
qed

theorem C3_physical_roundtrip_counterexample:
  "PhysicalLayer_unpack (PhysicalLayer_pack [0x01]) = [ [0xA5, 0x5A, 0x02, 0x00, 0x01, 0x02] ] \<and>
   PhysicalLayer_unpack (PhysicalLayer_pack [0x01]) \<noteq> [ [0x01] ] \<and>
   map physicalFramePayload (PhysicalLayer_unpack (PhysicalLayer_pack (replicate 65535 0)))
     \<noteq> [Some (replicate 65535 0)]"
proof -
  have p: "PhysicalLayer_pack [0x01] = [0xA5, 0x5A, 0x02, 0x00, 0x01, 0x02]"
    by (simp add: PhysicalLayer_pack_shape packHead_bytes packSum_def sumBytes_def)
  have "unpackWithRemain (PhysicalLayer_pack [0x01]) = ([PhysicalLayer_pack [0x01] ], [])"
    by (rule unpackWithRemain_pack) simp
  then have "PhysicalLayer_unpack (PhysicalLayer_pack [0x01]) = [ [0xA5, 0x5A, 0x02, 0x00, 0x01, 0x02] ]"
    by (simp add: PhysicalLayer_unpack_def p)
  moreover have "PhysicalLayer_unpack (PhysicalLayer_pack (replicate 65535 0)) = []"
    by (rule unpack_zeros_wrapped) simp_all
  ultimately show ?thesis by (simp only: list.map) simp
qed

subsection \<open>Resynchronisation after a bad checksum\<close>

text \<open>Positions that the loop passes one byte at a time (\<open>skipsAt\<close>: no header, or a header
  whose whole candidate is in the buffer with a wrong checksum) are passed without touching the
  frames found so far; at a position where it stops (\<open>stopsAt\<close>) it returns them.\<close>

lemma unpackLoop_skips:
  assumes "i \<le> j" and "\<forall>k. i \<le> k \<and> k < j \<longrightarrow> skipsAt data k"
  shows "unpackLoop data i acc = unpackLoop data j acc"
  using assms
proof (induction "j - i" arbitrary: i)
  case 0
  then show ?case by simp
next
  case (Suc d)
  from Suc.hyps(2) Suc.prems(1) have lt: "i < j" by simp
  with Suc.prems(2) have s: "skipsAt data i" by simp
  have step: "unpackLoop data i acc = unpackLoop data (i + 1) acc"
  proof (cases "headerAt data i")
    case True
    with s show ?thesis by (simp add: skipsAt_def unpackLoop_badsum)
  next
    case False
    with s show ?thesis by (simp add: skipsAt_def unpackLoop_skip)
  qed
  have "unpackLoop data (i + 1) acc = unpackLoop data j acc"
  proof (rule Suc.hyps(1))
    show "d = j - (i + 1)" using Suc.hyps(2) by simp
    show "i + 1 \<le> j" using lt by simp
    show "\<forall>k. i + 1 \<le> k \<and> k < j \<longrightarrow> skipsAt data k" using Suc.prems(2) by simp
  qed
  with step show ?case by simp
qed

lemma unpackLoop_acc:
  "fst (unpackLoop data i (pre @ acc)) = pre @ fst (unpackLoop data i acc)"
  using unpackLoop_shift [of "[]" data i pre acc]
  by (simp split: prod.splits)

lemma unpackLoop_stopsAt: "stopsAt data k \<Longrightarrow> unpackLoop data k acc = (acc, k)"
  by (cases "k + 5 \<le> length data") (simp_all add: stopsAt_def unpackLoop_stop unpackLoop_incomplete)


text \<open>C9. When the loop of unpackWithRemain stands at a position \<open>i\<close> where the two header
  bytes match and the whole candidate frame is in the buffer, but its checksum does not verify,
  it goes on from the next byte (cursor + 1) with the frames found so far unchanged, and scanning
  continues from there: when \<open>j\<close> is the first position after \<open>i\<close> that is not passed one byte
  at a time (\<open>j\<close> may lie inside the rejected candidate), then a valid frame at \<open>j\<close> is the next
  frame returned, followed by what the scan finds after it, and if the loop stops at \<open>j\<close> the
  frames found before \<open>i\<close> are returned with the cursor at \<open>j\<close>. The rejected candidate is
  not among the frames that scanning the buffer returns.\<close>

theorem C9_bad_checksum_advances_one:
  assumes "i + 5 \<le> length data" and "headerAt data i"
    and "i + totalLenAt data i \<le> length data" and "\<not> checksumOkAt data i"
    and "i < j" and "\<forall>k. i < k \<and> k < j \<longrightarrow> skipsAt data k"
  shows "unpackLoop data i acc = unpackLoop data (i + 1) acc \<and>
         (frameAt data j \<longrightarrow>
            fst (unpackLoop data i acc)
              = acc @ sliceArray data j (j + totalLenAt data j)
                  # fst (unpackLoop data (j + totalLenAt data j) [])) \<and>
         (stopsAt data j \<longrightarrow> unpackLoop data i acc = (acc, j)) \<and>
         sliceArray data i (i + totalLenAt data i) \<notin> set (PhysicalLayer_unpack data)"
proof (intro conjI impI)
  show "unpackLoop data i acc = unpackLoop data (i + 1) acc"
    using assms(1-4) by (rule unpackLoop_badsum)
  have "skipsAt data i" using assms(1-4) by (simp add: skipsAt_def)
  with assms(6) have "\<forall>k. i \<le> k \<and> k < j \<longrightarrow> skipsAt data k"
    by (metis le_neq_implies_less)
  with assms(5) have toj: "unpackLoop data i acc = unpackLoop data j acc"
    by (intro unpackLoop_skips) simp_all
  {
    assume f: "frameAt data j"
    let ?frame = "sliceArray data j (j + totalLenAt data j)"
    from f have "unpackLoop data j acc = unpackLoop data (j + totalLenAt data j) (acc @ [?frame])"
      by (intro unpackLoop_frame) (simp_all add: frameAt_def)
    with toj have "fst (unpackLoop data i acc)
                   = fst (unpackLoop data (j + totalLenAt data j) ((acc @ [?frame]) @ []))"
      by simp
    also have "\<dots> = (acc @ [?frame]) @ fst (unpackLoop data (j + totalLenAt data j) [])"
      by (rule unpackLoop_acc)
    finally show "fst (unpackLoop data i acc)
                  = acc @ ?frame # fst (unpackLoop data (j + totalLenAt data j) [])"
      by simp
  }
  {
    assume "stopsAt data j"
    then have "unpackLoop data j acc = (acc, j)" by (rule unpackLoop_stopsAt)
    with toj show "unpackLoop data i acc = (acc, j)" by simp
  }
  have "\<not> validFrame (sliceArray data i (i + totalLenAt data i))"
    using candidate_status(3) [OF assms(3)] assms(4) by (simp add: validFrame_def)
  then show "sliceArray data i (i + totalLenAt data i) \<notin> set (PhysicalLayer_unpack data)"
    using PhysicalLayer_unpack_valid by blast
qed

theorem C9_bad_checksum_advances_one_witness:
  "0 + 5 \<le> length [0xA5, 0x5A, 0x02, 0x00, 0xA5, 0x5A, 0x02, 0x00, 0x01, 0x02 :: byte] \<and>
   headerAt [0xA5, 0x5A, 0x02, 0x00, 0xA5, 0x5A, 0x02, 0x00, 0x01, 0x02] 0 \<and>
   0 + totalLenAt [0xA5, 0x5A, 0x02, 0x00, 0xA5, 0x5A, 0x02, 0x00, 0x01, 0x02] 0
     \<le> length [0xA5, 0x5A, 0x02, 0x00, 0xA5, 0x5A, 0x02, 0x00, 0x01, 0x02 :: byte] \<and>
   \<not> checksumOkAt [0xA5, 0x5A, 0x02, 0x00, 0xA5, 0x5A, 0x02, 0x00, 0x01, 0x02] 0 \<and>
   skipsAt [0xA5, 0x5A, 0x02, 0x00, 0xA5, 0x5A, 0x02, 0x00, 0x01, 0x02] 1 \<and>
   skipsAt [0xA5, 0x5A, 0x02, 0x00, 0xA5, 0x5A, 0x02, 0x00, 0x01, 0x02] 2 \<and>
   skipsAt [0xA5, 0x5A, 0x02, 0x00, 0xA5, 0x5A, 0x02, 0x00, 0x01, 0x02] 3 \<and>
   frameAt [0xA5, 0x5A, 0x02, 0x00, 0xA5, 0x5A, 0x02, 0x00, 0x01, 0x02] 4 \<and>
   unpackLoop [0xA5, 0x5A, 0x02, 0x00, 0xA5, 0x5A, 0x02, 0x00, 0x01, 0x02] 0 []
     = unpackLoop [0xA5, 0x5A, 0x02, 0x00, 0xA5, 0x5A, 0x02, 0x00, 0x01, 0x02] (0 + 1) [] \<and>
   fst (unpackLoop [0xA5, 0x5A, 0x02, 0x00, 0xA5, 0x5A, 0x02, 0x00, 0x01, 0x02] 0 [])
     = [ [0xA5, 0x5A, 0x02, 0x00, 0x01, 0x02] ] \<and>
   [0xA5, 0x5A, 0x02, 0x00, 0xA5, 0x5A]
     \<notin> set (PhysicalLayer_unpack [0xA5, 0x5A, 0x02, 0x00, 0xA5, 0x5A, 0x02, 0x00, 0x01, 0x02]) \<and>
   0 + 5 \<le> length [0xA5, 0x5A, 0x02, 0x00, 0x09, 0x09, 0x07 :: byte] \<and>
   headerAt [0xA5, 0x5A, 0x02, 0x00, 0x09, 0x09, 0x07] 0 \<and>
   0 + totalLenAt [0xA5, 0x5A, 0x02, 0x00, 0x09, 0x09, 0x07] 0
     \<le> length [0xA5, 0x5A, 0x02, 0x00, 0x09, 0x09, 0x07 :: byte] \<and>
   \<not> checksumOkAt [0xA5, 0x5A, 0x02, 0x00, 0x09, 0x09, 0x07] 0 \<and>
   skipsAt [0xA5, 0x5A, 0x02, 0x00, 0x09, 0x09, 0x07] 1 \<and>
   skipsAt [0xA5, 0x5A, 0x02, 0x00, 0x09, 0x09, 0x07] 2 \<and>
   stopsAt [0xA5, 0x5A, 0x02, 0x00, 0x09, 0x09, 0x07] 3 \<and>
   unpackLoop [0xA5, 0x5A, 0x02, 0x00, 0x09, 0x09, 0x07] 0 [] = ([], 3)"
proof -
  let ?d = "[0xA5, 0x5A, 0x02, 0x00, 0xA5, 0x5A, 0x02, 0x00, 0x01, 0x02] :: byte list"
  have a: "0 + 5 \<le> length ?d" by simp
  have b: "headerAt ?d 0" by (simp add: headerAt_def)
  have t: "totalLenAt ?d 0 = 6" by (simp add: totalLenAt_0)
  have c: "0 + totalLenAt ?d 0 \<le> length ?d" unfolding t by simp
  have d: "\<not> checksumOkAt ?d 0" by (simp add: checksumOkAt_def t sliceArray_def sumBytes_def)
  have s1: "skipsAt ?d 1" and s2: "skipsAt ?d 2" and s3: "skipsAt ?d 3"
    by (simp_all add: skipsAt_def headerAt_def)
  have t4: "totalLenAt ?d 4 = 6" by (simp add: totalLenAt_def)
  have f4: "frameAt ?d 4"
    by (simp add: frameAt_def headerAt_def t4 checksumOkAt_def sliceArray_def sumBytes_def)
  have sk: "\<forall>k. 0 < k \<and> k < 4 \<longrightarrow> skipsAt ?d k"
  proof (intro allI impI)
    fix k :: nat
    assume "0 < k \<and> k < 4"
    then have "k = 1 \<or> k = 2 \<or> k = 3" by auto
    with s1 s2 s3 show "skipsAt ?d k" by auto
  qed
  have cand: "sliceArray ?d 0 (0 + totalLenAt ?d 0) = [0xA5, 0x5A, 0x02, 0x00, 0xA5, 0x5A]"
    unfolding t by (simp add: sliceArray_def)
  have fr: "sliceArray ?d 4 (4 + totalLenAt ?d 4) = [0xA5, 0x5A, 0x02, 0x00, 0x01, 0x02]"
    unfolding t4 by (simp add: sliceArray_def)
  have rest: "fst (unpackLoop ?d (4 + totalLenAt ?d 4) []) = []"
    unfolding t4 by (simp add: unpackLoop_stop)
  have lt: "(0::nat) < 4" by simp
  note main = C9_bad_checksum_advances_one [OF a b c d lt sk, of "[]", unfolded cand fr rest]
  have r1: "unpackLoop ?d 0 [] = unpackLoop ?d (0 + 1) []"
    using main by (rule conjunct1)
  have r2: "fst (unpackLoop ?d 0 []) = [ [0xA5, 0x5A, 0x02, 0x00, 0x01, 0x02] ]"
    using main [THEN conjunct2, THEN conjunct1] f4 by simp
  have r3: "[0xA5, 0x5A, 0x02, 0x00, 0xA5, 0x5A] \<notin> set (PhysicalLayer_unpack ?d)"
    using main [THEN conjunct2, THEN conjunct2, THEN conjunct2] .
  note r = r1 r2 r3
  let ?e = "[0xA5, 0x5A, 0x02, 0x00, 0x09, 0x09, 0x07] :: byte list"
  have a': "0 + 5 \<le> length ?e" by simp
  have b': "headerAt ?e 0" by (simp add: headerAt_def)
  have t': "totalLenAt ?e 0 = 6" by (simp add: totalLenAt_0)
  have c': "0 + totalLenAt ?e 0 \<le> length ?e" unfolding t' by simp
  have d': "\<not> checksumOkAt ?e 0" by (simp add: checksumOkAt_def t' sliceArray_def sumBytes_def)
  have s1': "skipsAt ?e 1" and s2': "skipsAt ?e 2"
    by (simp_all add: skipsAt_def headerAt_def)
  have st: "stopsAt ?e 3" by (simp add: stopsAt_def)
  have sk': "\<forall>k. 0 < k \<and> k < 3 \<longrightarrow> skipsAt ?e k"
  proof (intro allI impI)
    fix k :: nat
    assume "0 < k \<and> k < 3"
    then have "k = 1 \<or> k = 2" by auto
    with s1' s2' show "skipsAt ?e k" by auto
  qed
  have lt': "(0::nat) < 3" by simp
  have r': "unpackLoop ?e 0 [] = ([], 3)"
    using C9_bad_checksum_advances_one [OF a' b' c' d' lt' sk', of "[]", THEN conjunct2, THEN conjunct2, THEN conjunct1] st
    by (rule mp)
  from a b c d s1 s2 s3 f4 r a' b' c' d' s1' s2' st r' show ?thesis by (intro conjI)
qed


text \<open>In the buffer of the witness the frame that starts inside the rejected candidate is found:
  skipping the whole candidate (6 bytes) would have lost it.\<close>

lemma C9_example:
  "unpackWithRemain [0xA5, 0x5A, 0x02, 0x00, 0xA5, 0x5A, 0x02, 0x00, 0x01, 0x02]
   = ([ [0xA5, 0x5A, 0x02, 0x00, 0x01, 0x02] ], [])"
  by code_simp


section \<open>Properties of the application layer\<close>

text \<open>C10. The frame index and the payload length are stored in one byte each. For a payload
  of at most 255 bytes, unpacking a packed message gives the frame index modulo 256 and the
  payload; for a longer payload the stored length byte differs from the length, and unpacking
  gives the empty result (frame index 0, no payload).\<close>

theorem C10_application_roundtrip:
  "(length P \<le> 255 \<longrightarrow>
      ApplicationLayer_unpack (ApplicationLayer_pack P i)
        = \<lparr>ad_frameIndex = nat (i mod 256), ad_data = P\<rparr>) \<and>
   (length P > 255 \<longrightarrow>
      ApplicationLayer_unpack (ApplicationLayer_pack P i) = \<lparr>ad_frameIndex = 0, ad_data = []\<rparr>)"
proof (intro conjI impI)
  have fi: "unat (of_int i :: byte) = nat (i mod 256)"
    by (simp add: unat_eq_nat_uint uint_word_of_int)
  have ln: "unat (of_nat (length P) :: byte) = length P mod 256"
    by (simp add: unat_of_nat)
  have second: "(ApplicationLayer_pack P i) ! 1 = of_nat (length P)"
    and first: "(ApplicationLayer_pack P i) ! 0 = of_int i"
    and len: "length (ApplicationLayer_pack P i) = length P + 2"
    and rest: "drop 2 (ApplicationLayer_pack P i) = P"
    by (simp_all add: ApplicationLayer_pack_def)
  {
    assume "length P \<le> 255"
    then have "length P mod 256 = length P" by simp
    then show "ApplicationLayer_unpack (ApplicationLayer_pack P i)
        = \<lparr>ad_frameIndex = nat (i mod 256), ad_data = P\<rparr>"
      unfolding ApplicationLayer_unpack_def Let_def second first len rest fi ln by simp
  }
  {
    assume "255 < length P"
    moreover have "length P mod 256 < 256" by simp
    ultimately have "length P mod 256 \<noteq> length P" by linarith
    then show "ApplicationLayer_unpack (ApplicationLayer_pack P i) = \<lparr>ad_frameIndex = 0, ad_data = []\<rparr>"
      unfolding ApplicationLayer_unpack_def Let_def second first len rest fi ln by simp
  }
qed

theorem C10_application_roundtrip_witness:
  "length [0x07, 0x01 :: byte] \<le> 255 \<and>
   ApplicationLayer_unpack (ApplicationLayer_pack [0x07, 0x01] 259)
     = \<lparr>ad_frameIndex = 3, ad_data = [0x07, 0x01]\<rparr> \<and>
   length (replicate 256 (0 :: byte)) > 255 \<and>
   ApplicationLayer_unpack (ApplicationLayer_pack (replicate 256 0) 259)
     = \<lparr>ad_frameIndex = 0, ad_data = []\<rparr>"
  using C10_application_roundtrip [of "[0x07, 0x01]" 259]
    C10_application_roundtrip [of "replicate 256 0" 259]
  by simp


section \<open>Properties of the XOR validation\<close>

declare xorLoop.simps [simp del]

lemma xorLoop_iff:
  "xorLoop requestBody responseBody i \<longleftrightarrow>
     (\<forall>k. i \<le> k \<and> k < length requestBody \<longrightarrow> responseBody ! k = requestBody ! k XOR 0x5A)"
proof (induction requestBody responseBody i rule: xorLoop.induct)
  case (1 requestBody responseBody i)
  show ?case
  proof (cases "i < length requestBody")
    case False
    then have "xorLoop requestBody responseBody i" by (subst xorLoop.simps) simp
    moreover from False have "\<not> (i \<le> k \<and> k < length requestBody)" for k by linarith
    ultimately show ?thesis by blast
  next
    case inb: True
    show ?thesis
    proof (cases "responseBody ! i = requestBody ! i XOR 0x5A")
      case False
      with inb show ?thesis by (subst xorLoop.simps) auto
    next
      case True
      have "xorLoop requestBody responseBody i = xorLoop requestBody responseBody (i + 1)"
        using inb True by (subst xorLoop.simps) simp
      also have "\<dots> \<longleftrightarrow> (\<forall>k. i + 1 \<le> k \<and> k < length requestBody \<longrightarrow>
                        responseBody ! k = requestBody ! k XOR 0x5A)"
        using "1.IH" inb True by simp
      also have "\<dots> \<longleftrightarrow> (\<forall>k. i \<le> k \<and> k < length requestBody \<longrightarrow>
                        responseBody ! k = requestBody ! k XOR 0x5A)"
        using True by (metis Suc_eq_plus1 Suc_leI le_neq_implies_less le_simps(3) less_or_eq_imp_le)
      finally show ?thesis .
    qed
  qed
qed

lemma checkXorValidation_iff:
  "checkXorValidation req resp \<longleftrightarrow>
     req \<noteq> [] \<and> resp \<noteq> [] \<and> resp ! 0 = req ! 0 \<and> length (drop 1 resp) = length (drop 1 req) \<and>
     (\<forall>i < length (drop 1 req). drop 1 resp ! i = drop 1 req ! i XOR 0x5A)"
  by (simp add: checkXorValidation_def Let_def xorLoop_iff)

lemma checkXorValidation_nth:
  assumes "checkXorValidation req resp" and "k < length resp"
  shows "resp ! k = (if k = 0 then req ! 0 else req ! k XOR 0x5A)"
proof (cases k)
  case 0
  with assms show ?thesis by (simp add: checkXorValidation_iff)
next
  case (Suc j)
  from assms have len: "length resp - 1 = length req - 1"
    and body: "\<forall>i < length req - 1. drop 1 resp ! i = drop 1 req ! i XOR 0x5A"
    by (simp_all add: checkXorValidation_iff)
  from Suc assms(2) len have j: "j < length req - 1" by simp
  with body have "drop 1 resp ! j = drop 1 req ! j XOR 0x5A" by blast
  moreover have "drop 1 resp ! j = resp ! k" using Suc assms(2) by simp
  moreover have "drop 1 req ! j = req ! k" using Suc j by simp
  ultimately show ?thesis using Suc by simp
qed

text \<open>C6. \<open>checkXorValidation\<close> accepts exactly when both arrays are non-empty, the opcodes
  (first bytes) are equal, the bodies after the opcode have equal length, and every byte of the
  response body is the request body byte XOR \<open>0x5A\<close>; and an accepted response with any single
  byte changed is rejected.\<close>

theorem C6_checkXorValidation:
  "(checkXorValidation req resp \<longleftrightarrow>
      req \<noteq> [] \<and> resp \<noteq> [] \<and> resp ! 0 = req ! 0 \<and>
      length (drop 1 resp) = length (drop 1 req) \<and>
      (\<forall>i < length (drop 1 req). drop 1 resp ! i = drop 1 req ! i XOR 0x5A)) \<and>
   (checkXorValidation req resp \<longrightarrow>
      (\<forall>k < length resp. \<forall>v. v \<noteq> resp ! k \<longrightarrow> \<not> checkXorValidation req (resp[k := v])))"
proof (intro conjI impI allI)
  show "checkXorValidation req resp \<longleftrightarrow>
      req \<noteq> [] \<and> resp \<noteq> [] \<and> resp ! 0 = req ! 0 \<and>
      length (drop 1 resp) = length (drop 1 req) \<and>
      (\<forall>i < length (drop 1 req). drop 1 resp ! i = drop 1 req ! i XOR 0x5A)"
    by (rule checkXorValidation_iff)
next
  fix k v
  assume ok: "checkXorValidation req resp" and k: "k < length resp" and v: "v \<noteq> resp ! k"
  show "\<not> checkXorValidation req (resp[k := v])"
  proof
    assume ok': "checkXorValidation req (resp[k := v])"
    from k have "k < length (resp[k := v])" by simp
    from checkXorValidation_nth [OF ok' this] checkXorValidation_nth [OF ok k]
    have "resp[k := v] ! k = resp ! k" by simp
    with k v show False by simp
  qed
qed

theorem C6_checkXorValidation_witness:
  "checkXorValidation [0x01, 0x12, 0x34, 0x56, 0x78] [0x01, 0x48, 0x6E, 0x0C, 0x22] \<and>
   (2::nat) < length [0x01, 0x48, 0x6E, 0x0C, 0x22 :: byte] \<and>
   (0x6F :: byte) \<noteq> [0x01, 0x48, 0x6E, 0x0C, 0x22] ! 2 \<and>
   \<not> checkXorValidation [0x01, 0x12, 0x34, 0x56, 0x78] ([0x01, 0x48, 0x6E, 0x0C, 0x22][2 := 0x6F])"
proof -
  let ?req = "[0x01, 0x12, 0x34, 0x56, 0x78] :: byte list"
  let ?resp = "[0x01, 0x48, 0x6E, 0x0C, 0x22] :: byte list"
  have a: "checkXorValidation ?req ?resp" by code_simp
  have k: "(2::nat) < length ?resp" by simp
  have v: "(0x6F :: byte) \<noteq> ?resp ! 2" by simp
  from C6_checkXorValidation [of ?req ?resp] a k v
  have "\<not> checkXorValidation ?req (?resp[2 := 0x6F])" by blast
  with a k v show ?thesis by (intro conjI)
qed


section \<open>Properties of the segment packets\<close>

lemma and_255_byte: "of_int (k AND 0xFF) = (of_int k :: byte)"
proof -
  have "k AND 0xFF = take_bit 8 k"
    using take_bit_eq_mask [of 8 k] by (simp add: mask_eq_exp_minus_1)
  then show ?thesis by (simp add: word_of_int_eq_iff)
qed

lemma numberBytes_div:
  "numberBytes n = [of_int n, of_int (n div 256), of_int (n div 65536), of_int (n div 16777216)]"
  by (simp add: numberBytes_def and_255_byte drop_bit_eq_div)

lemma length_numberBytes: "length (numberBytes n) = 4"
  by (simp add: numberBytes_def)

lemma length_encodeRanges: "length (encodeRanges rs) = 8 * length rs"
  by (induction rs) (auto simp: encodeRanges_def length_numberBytes)

lemma encodeRanges_snoc:
  "encodeRanges (rs @ [(s, e)]) = encodeRanges rs @ numberBytes s @ numberBytes e"
  by (simp add: encodeRanges_def)

lemma base256_digits:
  fixes n :: int
  assumes "0 \<le> n" and "n < 4294967296"
  shows "n mod 256 + n div 256 mod 256 * 256 + n div 65536 mod 256 * 65536
         + n div 16777216 mod 256 * 16777216 = n"
proof -
  define a where "a = n div 256"
  define b where "b = a div 256"
  define c where "c = b div 256"
  have n: "n = n mod 256 + 256 * a" unfolding a_def by simp
  have a: "a = a mod 256 + 256 * b" unfolding b_def by simp
  have b: "b = b mod 256 + 256 * c" unfolding c_def by simp
  have b': "n div 65536 = b" unfolding b_def a_def by (simp add: zdiv_zmult2_eq [symmetric])
  have c': "n div 16777216 = c" unfolding c_def b_def a_def by (simp add: zdiv_zmult2_eq [symmetric])
  from assms have "0 \<le> c" "c < 256" unfolding c' [symmetric] by simp_all
  then have c: "c mod 256 = c" by simp
  show ?thesis
    unfolding b' c' a_def [symmetric] c using n a b by linarith
qed

lemma spec_word_numberBytes:
  assumes "inU32 n"
  shows "spec_word (of_int n) (of_int (n div 256)) (of_int (n div 65536)) (of_int (n div 16777216)) = n"
proof -
  have u: "uint (of_int k :: byte) = k mod 256" for k
    by (simp add: uint_word_of_int)
  have p: "(2::int) ^ 8 = 256" "(2::int) ^ 16 = 65536" "(2::int) ^ 24 = 16777216"
    by simp_all
  from assms have "0 \<le> n" "n < 4294967296" by (simp_all add: inU32_def)
  then show ?thesis unfolding spec_word_def u p by (rule base256_digits)
qed


lemma spec_decodeRanges_encodeRanges:
  "(\<forall>(s, e) \<in> set rs. inU32 s \<and> inU32 e) \<Longrightarrow> spec_decodeRanges (encodeRanges rs) = rs"
proof (induction rs)
  case Nil
  show ?case by (simp add: encodeRanges_def)
next
  case (Cons r rs)
  obtain s e where r: "r = (s, e)" by (cases r)
  from Cons.prems r have "inU32 s" "inU32 e" by simp_all
  then have "spec_decodeRanges (encodeRanges (r # rs)) = (s, e) # spec_decodeRanges (encodeRanges rs)"
    unfolding r by (simp add: encodeRanges_def numberBytes_div spec_word_numberBytes)
  with Cons r show ?case by simp
qed

lemma spec_decodePacket_segmentPacket:
  assumes "length rs \<le> 25" and "\<forall>(s, e) \<in> set rs. inU32 s \<and> inU32 e"
  shows "spec_decodePacket (segmentPacket rs) = Some rs"
proof -
  from assms(1) have "unat (of_nat (length rs) :: byte) = length rs"
    by (simp add: unat_of_nat)
  then show ?thesis
    using spec_decodeRanges_encodeRanges [OF assms(2)]
    by (simp add: spec_decodePacket_def segmentPacket_def length_encodeRanges)
qed

lemma spec_decodeAll_packets:
  assumes "\<forall>c \<in> set chunks. length c \<le> 25"
    and "\<forall>(s, e) \<in> set (concat chunks). inU32 s \<and> inU32 e"
  shows "spec_decodeAll (map segmentPacket chunks) = Some (concat chunks)"
  using assms
proof (induction chunks)
  case Nil
  show ?case by simp
next
  case (Cons c chunks)
  from Cons.prems have "spec_decodePacket (segmentPacket c) = Some c"
    by (intro spec_decodePacket_segmentPacket) auto
  moreover from Cons have "spec_decodeAll (map segmentPacket chunks) = Some (concat chunks)"
    by auto
  ultimately show ?case by simp
qed

subsection \<open>The loop of \<open>convertSegmentsToPackets\<close>\<close>

lemma pushSegment_step:
  assumes "length cur < 25"
  shows "pushSegment (packets, encodeRanges cur) (s, e) =
           (if length cur = 24 then (packets @ [segmentPacket (cur @ [(s, e)])], [])
            else (packets, encodeRanges (cur @ [(s, e)])))"
proof -
  have first: "pushNumber (packets, encodeRanges cur) s = (packets, encodeRanges cur @ numberBytes s)"
    using assms by (simp add: pushNumber_def Let_def length_encodeRanges length_numberBytes)
  have l: "length ((encodeRanges cur @ numberBytes s) @ numberBytes e) = 8 * (length cur + 1)"
    by (simp add: length_encodeRanges length_numberBytes)
  have second: "pushNumber (packets, encodeRanges cur @ numberBytes s) e =
      (if length cur = 24 then (packets @ [segmentPacket (cur @ [(s, e)])], [])
       else (packets, encodeRanges (cur @ [(s, e)])))"
    using assms unfolding pushNumber_def Let_def prod.case l
    by (simp add: segmentPacket_def encodeRanges_snoc)
  show ?thesis
    by (simp add: pushSegment_def first second)
qed

lemma foldl_pushSegment:
  assumes "length cur < 25" and "\<forall>c \<in> set chunks. length c = 25"
  shows "\<exists>chunks' cur'.
           foldl pushSegment (map segmentPacket chunks, encodeRanges cur) segs
             = (map segmentPacket chunks', encodeRanges cur') \<and>
           length cur' < 25 \<and> (\<forall>c \<in> set chunks'. length c = 25) \<and>
           concat chunks' @ cur' = concat chunks @ cur @ segs"
  using assms
proof (induction segs arbitrary: chunks cur)
  case Nil
  then show ?case by auto
next
  case (Cons seg segs)
  obtain s e where seg: "seg = (s, e)" by (cases seg)
  show ?case
  proof (cases "length cur = 24")
    case True
    let ?chunks1 = "chunks @ [cur @ [(s, e)] ]"
    have step: "pushSegment (map segmentPacket chunks, encodeRanges cur) seg
                = (map segmentPacket ?chunks1, encodeRanges [])"
      unfolding seg using pushSegment_step [OF Cons.prems(1)] True
      by (simp add: encodeRanges_def)
    have "\<forall>c \<in> set ?chunks1. length c = 25" using Cons.prems(2) True by simp
    from Cons.IH [OF _ this, of "[]"] obtain chunks' cur' where
      "foldl pushSegment (map segmentPacket ?chunks1, encodeRanges []) segs
         = (map segmentPacket chunks', encodeRanges cur')"
      "length cur' < 25" "\<forall>c \<in> set chunks'. length c = 25"
      "concat chunks' @ cur' = concat ?chunks1 @ [] @ segs"
      by auto
    with step seg show ?thesis by (intro exI [of _ chunks'] exI [of _ cur']) simp
  next
    case False
    let ?cur1 = "cur @ [(s, e)]"
    have step: "pushSegment (map segmentPacket chunks, encodeRanges cur) seg
                = (map segmentPacket chunks, encodeRanges ?cur1)"
      unfolding seg using pushSegment_step [OF Cons.prems(1)] False by simp
    have "length ?cur1 < 25" using Cons.prems(1) False by simp
    from Cons.IH [OF this Cons.prems(2)] obtain chunks' cur' where
      "foldl pushSegment (map segmentPacket chunks, encodeRanges ?cur1) segs
         = (map segmentPacket chunks', encodeRanges cur')"
      "length cur' < 25" "\<forall>c \<in> set chunks'. length c = 25"
      "concat chunks' @ cur' = concat chunks @ ?cur1 @ segs"
      by auto
    with step seg show ?thesis by (intro exI [of _ chunks'] exI [of _ cur']) simp
  qed
qed

lemma convertSegmentsToPackets_chunks:
  "\<exists>chunks. concat chunks = segments \<and> (\<forall>c \<in> set chunks. c \<noteq> [] \<and> length c \<le> 25) \<and>
            convertSegmentsToPackets segments = map segmentPacket chunks"
proof -
  from foldl_pushSegment [of "[]" "[]" segments] obtain chunks' cur' where
    f: "foldl pushSegment ([], []) segments = (map segmentPacket chunks', encodeRanges cur')"
    and c: "length cur' < 25" "\<forall>c \<in> set chunks'. length c = 25"
      "concat chunks' @ cur' = segments"
    by (auto simp: encodeRanges_def)
  show ?thesis
  proof (cases "cur' = []")
    case True
    with f have "convertSegmentsToPackets segments = map segmentPacket chunks'"
      by (simp add: convertSegmentsToPackets_def encodeRanges_def)
    with c True show ?thesis by (intro exI [of _ chunks']) auto
  next
    case False
    then have "length (encodeRanges cur') > 0" by (simp add: length_encodeRanges)
    then have "encodeRanges cur' \<noteq> []" by blast
    with f have "convertSegmentsToPackets segments = map segmentPacket (chunks' @ [cur'])"
      by (simp add: convertSegmentsToPackets_def segmentPacket_def length_encodeRanges)
    with c False show ?thesis by (intro exI [of _ "chunks' @ [cur']"]) auto
  qed
qed

text \<open>C7. The packets are the segment list cut into consecutive non-empty groups of at most 25
  ranges, each group sent as opcode \<open>0x0D\<close>, the number of ranges of the group, and the two
  endpoints of every range as four bytes each, low byte first (the endpoint modulo \<open>2^32\<close>).
  When every endpoint is an integer from 0 to \<open>2^32 - 1\<close>, decoding the packets and
  concatenating the ranges gives back the segment list in order.\<close>

theorem C7_segment_packets:
  "(\<exists>chunks. concat chunks = segments \<and> (\<forall>c \<in> set chunks. c \<noteq> [] \<and> length c \<le> 25) \<and>
             convertSegmentsToPackets segments = map segmentPacket chunks) \<and>
   ((\<forall>(s, e) \<in> set segments. inU32 s \<and> inU32 e) \<longrightarrow>
      spec_decodeAll (convertSegmentsToPackets segments) = Some segments)"
proof (intro conjI impI)
  show "\<exists>chunks. concat chunks = segments \<and> (\<forall>c \<in> set chunks. c \<noteq> [] \<and> length c \<le> 25) \<and>
             convertSegmentsToPackets segments = map segmentPacket chunks"
    by (rule convertSegmentsToPackets_chunks)
next
  assume r: "\<forall>(s, e) \<in> set segments. inU32 s \<and> inU32 e"
  from convertSegmentsToPackets_chunks [of segments] obtain chunks where
    c: "concat chunks = segments" "\<forall>c \<in> set chunks. c \<noteq> [] \<and> length c \<le> 25"
      "convertSegmentsToPackets segments = map segmentPacket chunks"
    by blast
  from c(2) have "\<forall>c \<in> set chunks. length c \<le> 25" by blast
  moreover from r c(1) have "\<forall>(s, e) \<in> set (concat chunks). inU32 s \<and> inU32 e" by simp
  ultimately have "spec_decodeAll (map segmentPacket chunks) = Some (concat chunks)"
    by (rule spec_decodeAll_packets)
  with c show "spec_decodeAll (convertSegmentsToPackets segments) = Some segments" by simp
qed


theorem C7_segment_packets_witness:
  "inU32 1 \<and> inU32 3 \<and> inU32 7 \<and>
   convertSegmentsToPackets [(1, 3), (7, 7)]
     = [ [0x0D, 0x02, 1, 0, 0, 0, 3, 0, 0, 0, 7, 0, 0, 0, 7, 0, 0, 0] ] \<and>
   spec_decodeAll [ [0x0D, 0x02, 1, 0, 0, 0, 3, 0, 0, 0, 7, 0, 0, 0, 7, 0, 0, 0] ]
     = Some [(1, 3), (7, 7)]"
proof -
  have u: "inU32 1" "inU32 3" "inU32 7" by (simp_all add: inU32_def)
  then have r: "\<forall>(s, e) \<in> set [(1, 3), (7, 7 :: int)]. inU32 s \<and> inU32 e" by simp
  have p: "convertSegmentsToPackets [(1, 3), (7, 7)]
           = [ [0x0D, 0x02, 1, 0, 0, 0, 3, 0, 0, 0, 7, 0, 0, 0, 7, 0, 0, 0] ]"
    by code_simp
  from C7_segment_packets [of "[(1, 3), (7, 7)]"] r
  have "spec_decodeAll (convertSegmentsToPackets [(1, 3), (7, 7)]) = Some [(1, 3), (7, 7)]"
    by blast
  with u p show ?thesis by simp
qed

theorem C7_segment_packets_counterexample:
  "convertSegmentsToPackets [(4294967296, 4294967296)] = [ [0x0D, 0x01, 0, 0, 0, 0, 0, 0, 0, 0] ] \<and>
   spec_decodeAll (convertSegmentsToPackets [(4294967296, 4294967296)]) = Some [(0, 0)] \<and>
   spec_decodeAll (convertSegmentsToPackets [(4294967296, 4294967296)])
     \<noteq> Some [(4294967296, 4294967296)]"
proof -
  have p: "convertSegmentsToPackets [(4294967296, 4294967296)]
           = [ [0x0D, 0x01, 0, 0, 0, 0, 0, 0, 0, 0] ]"
    by code_simp
  have d: "spec_decodeAll [ [0x0D, 0x01, 0, 0, 0, 0, 0, 0, 0, 0] ] = Some [(0, 0)]"
    by code_simp
  show ?thesis unfolding p d by simp
qed

text \<open>Twenty-six ranges go out as a packet of 25 and a packet of 1.\<close>

lemma C7_example_26:
  "map (\<lambda>p. (length p, unat (p ! 1))) (convertSegmentsToPackets (map (\<lambda>i. (2 * int i, 2 * int i)) [1..<27]))
   = [(202, 25), (10, 1)]"
  by code_simp


section \<open>Properties of the segments of a lock id list\<close>

subsection \<open>The loop on exact integers\<close>

lemma exactLoop_acc: "exactLoop ids start en segments = segments @ exactLoop ids start en []"
proof (induction ids arbitrary: start en segments)
  case Nil
  show ?case by simp
next
  case (Cons n ids)
  show ?case
  proof (cases "n = en + 1")
    case True
    with Cons [of start n segments] show ?thesis by simp
  next
    case False
    with Cons [of n n "segments @ [(start, en)]"] Cons [of n n "[(start, en)]"]
    show ?thesis by simp
  qed
qed

lemma exactLoop_step:
  "exactLoop (n # ids) start en [] =
     (if n = en + 1 then exactLoop ids start n [] else (start, en) # exactLoop ids n n [])"
  using exactLoop_acc [of ids n n "[(start, en)]"] by simp

text \<open>The run loop on a sorted input that starts at or above the current run.\<close>

lemma exactLoop_props:
  assumes "start \<le> en" and "sorted (en # ids)"
  shows "(\<Union>(s, e) \<in> set (exactLoop ids start en []). {s..e}) = {start..en} \<union> set ids \<and>
         (\<forall>(s, e) \<in> set (exactLoop ids start en []). start \<le> s \<and> s \<le> e) \<and>
         sorted (map fst (exactLoop ids start en [])) \<and>
         (distinct (en # ids) \<longrightarrow>
            sorted_wrt (\<lambda>a b. snd a + 1 < fst b) (exactLoop ids start en []))"
  using assms
proof (induction ids arbitrary: start en)
  case Nil
  then show ?case by simp
next
  case (Cons n ids)
  from Cons.prems have le: "en \<le> n" and srt: "sorted (n # ids)" by simp_all
  show ?case
  proof (cases "n = en + 1")
    case True
    let ?R = "exactLoop ids start n []"
    from Cons.prems True have "start \<le> n" by simp
    from Cons.IH [OF this srt] have ih:
      "(\<Union>(s, e) \<in> set ?R. {s..e}) = {start..n} \<union> set ids"
      "\<forall>(s, e) \<in> set ?R. start \<le> s \<and> s \<le> e"
      "sorted (map fst ?R)"
      "distinct (n # ids) \<longrightarrow> sorted_wrt (\<lambda>a b. snd a + 1 < fst b) ?R"
      by simp_all
    have "{start..n} = {start..en} \<union> {n}" using True Cons.prems(1) by auto
    with ih True show ?thesis by (simp add: exactLoop_step)
  next
    case False
    let ?R = "exactLoop ids n n []"
    have "n \<le> n" by simp
    from Cons.IH [OF this srt] have ih:
      "(\<Union>(s, e) \<in> set ?R. {s..e}) = {n..n} \<union> set ids"
      "\<forall>(s, e) \<in> set ?R. n \<le> s \<and> s \<le> e"
      "sorted (map fst ?R)"
      "distinct (n # ids) \<longrightarrow> sorted_wrt (\<lambda>a b. snd a + 1 < fst b) ?R"
      by simp_all
    have step: "exactLoop (n # ids) start en [] = (start, en) # ?R"
      using False by (simp only: exactLoop_step if_False)
    have c: "(\<Union>(s, e) \<in> set ((start, en) # ?R). {s..e}) = {start..en} \<union> set (n # ids)"
      using ih(1) by simp
    have b: "\<forall>(s, e) \<in> set ((start, en) # ?R). start \<le> s \<and> s \<le> e"
      using ih(2) Cons.prems(1) le by auto
    have s: "sorted (map fst ((start, en) # ?R))"
      using ih(2,3) Cons.prems(1) le by auto
    have d: "sorted_wrt (\<lambda>a b. snd a + 1 < fst b) ((start, en) # ?R)" if "distinct (en # n # ids)"
    proof -
      from that le False have "en + 1 < n" by auto
      with ih(2) have "\<forall>x \<in> set ?R. en + 1 < fst x" by auto
      moreover from that ih(4) have "sorted_wrt (\<lambda>a b. snd a + 1 < fst b) ?R" by simp
      ultimately show ?thesis by simp
    qed
    from c b s d show ?thesis unfolding step by blast
  qed
qed

subsection \<open>Double arithmetic on safe integers\<close>

lemma roundHalfEven_of_int: "roundHalfEven (of_int k) = k"
  by (simp add: roundHalfEven_def)

lemma pow2_nonpos: "e \<le> 0 \<Longrightarrow> pow2 e = 1 / 2 ^ nat (- e)"
  by (cases "e = 0") (simp_all add: pow2_def)

lemma toDouble_normal:
  assumes "x \<noteq> 0" and "floorLog2 \<bar>x\<bar> = e" and "- 1022 \<le> e" and "e \<le> 1022"
    and "roundHalfEven (\<bar>x\<bar> / pow2 (e - 52)) = q"
  shows "toDouble x = Finite (sgn x * of_int q * pow2 (e - 52))"
proof -
  have m: "max (floorLog2 \<bar>x\<bar>) (- 1022) = e" using assms(2,3) by simp
  have no: "\<not> (1023 < e \<or> (e = 1023 \<and> q = 2 ^ 53))" using assms(4) by simp
  show ?thesis
    by (simp only: toDouble_def Let_def m assms(5) no if_False assms(1))
qed

text \<open>An integer of absolute value at most \<open>2^53\<close> is a double.\<close>

lemma toDouble_int:
  assumes "\<bar>m\<bar> \<le> 2 ^ 53"
  shows "toDouble (of_int m) = intNumber m"
proof (cases "m = 0")
  case True
  then show ?thesis by (simp add: toDouble_def intNumber_def)
next
  case False
  define a where "a = \<bar>m\<bar>"
  define b where "b = bitlen a"
  have a1: "1 \<le> a" and a2: "a \<le> 2 ^ 53" using False assms by (simp_all add: a_def)
  then have "0 < a" by simp
  from bitlen_bounds [OF this] have b1: "2 ^ nat (b - 1) \<le> a" and b2: "a < 2 ^ nat b"
    by (simp_all add: b_def)
  have bpos: "1 \<le> b"
  proof (rule ccontr)
    assume "\<not> 1 \<le> b"
    then have "nat b = 0" by simp
    with b2 a1 show False by simp
  qed
  have "(2::int) ^ nat (b - 1) \<le> 2 ^ 53" using b1 a2 by (rule order_trans)
  then have "nat (b - 1) \<le> 53" by (rule power_le_imp_le_exp [rotated]) simp
  with bpos have b54: "b \<le> 54" by simp
  have abs: "\<bar>of_int m :: rat\<bar> = of_int a" by (simp add: a_def)
  have fl: "floorLog2 (of_int a) = b - 1" using a1 by (simp add: floorLog2_def b_def)
  have nz: "(of_int m :: rat) \<noteq> 0" using False by simp
  have sg: "sgn (of_int m :: rat) * of_int a = of_int m"
    unfolding a_def by (metis mult_sgn_abs of_int_abs)
  show ?thesis
  proof (cases "b \<le> 53")
    case True
    define k where "k = nat (53 - b)"
    have p: "pow2 (b - 1 - 52) = 1 / 2 ^ k"
      using True pow2_nonpos [of "b - 1 - 52"] by (simp add: k_def algebra_simps)
    have q: "of_int a / pow2 (b - 1 - 52) = (of_int (a * 2 ^ k) :: rat)"
      unfolding p by simp
    have r: "roundHalfEven (of_int a / pow2 (b - 1 - 52)) = a * 2 ^ k"
      unfolding q by (rule roundHalfEven_of_int)
    have "sgn (of_int m :: rat) * of_int (a * 2 ^ k) * (1 / 2 ^ k) = sgn (of_int m) * of_int a"
      by simp
    with sg have res: "sgn (of_int m :: rat) * of_int (a * 2 ^ k) * (1 / 2 ^ k) = of_int m"
      by simp
    have "toDouble (of_int m) = Finite (sgn (of_int m) * of_int (a * 2 ^ k) * pow2 (b - 1 - 52))"
      using nz bpos True fl r unfolding abs [symmetric] by (intro toDouble_normal) simp_all
    then show ?thesis unfolding p res intNumber_def .
  next
    case False
    with b54 have b: "b = 54" by simp
    with b1 a2 have a: "a = 2 ^ 53" by simp
    have p: "pow2 (b - 1 - 52) = 2" unfolding b by (simp add: pow2_def)
    have q: "of_int a / pow2 (b - 1 - 52) = (of_int (2 ^ 52) :: rat)"
      unfolding p a by simp
    have r: "roundHalfEven (of_int a / pow2 (b - 1 - 52)) = 2 ^ 52"
      unfolding q by (rule roundHalfEven_of_int)
    have res: "sgn (of_int m :: rat) * of_int (2 ^ 52) * 2 = of_int m"
      using sg unfolding a by simp
    have "toDouble (of_int m) = Finite (sgn (of_int m) * of_int (2 ^ 52) * pow2 (b - 1 - 52))"
      using nz b fl r unfolding abs [symmetric] by (intro toDouble_normal) simp_all
    then show ?thesis unfolding p res intNumber_def .
  qed
qed

lemma plusOne_int:
  assumes "0 \<le> n" and "n < 2 ^ 53"
  shows "plusOne (intNumber n) = intNumber (n + 1)"
proof -
  have "\<bar>n + 1\<bar> \<le> 2 ^ 53" using assms by simp
  from toDouble_int [OF this] show ?thesis by (simp add: plusOne_def intNumber_def)
qed

lemma intNumber_eq [simp]: "intNumber a = intNumber b \<longleftrightarrow> a = b"
  by (simp add: intNumber_def)

lemma compareFn_int:
  assumes "0 \<le> x" and "x < 2 ^ 53" and "0 \<le> y" and "y < 2 ^ 53"
  shows "greaterThanZero (compareFn (intNumber x) (intNumber y)) \<longleftrightarrow> y < x"
proof -
  have "\<bar>x - y\<bar> \<le> 2 ^ 53" using assms by simp
  from toDouble_int [OF this] show ?thesis
    by (simp add: compareFn_def subtract_def intNumber_def greaterThanZero_def)
qed

text \<open>On safe positive integers the sort and the loop are those of exact integers.\<close>

lemma insertSorted_int:
  assumes "0 \<le> x" and "x < 2 ^ 53" and "\<forall>y \<in> set ys. 0 \<le> y \<and> y < 2 ^ 53"
  shows "insertSorted (intNumber x) (map intNumber ys) = map intNumber (insort x ys)"
  using assms(3)
proof (induction ys)
  case Nil
  show ?case by simp
next
  case (Cons y ys)
  then have y: "0 \<le> y" "y < 2 ^ 53" by simp_all
  from compareFn_int [OF assms(1,2) y] Cons show ?case by auto
qed

lemma sortNumbers_int:
  assumes "\<forall>y \<in> set ys. 0 \<le> y \<and> y < 2 ^ 53"
  shows "sortNumbers (map intNumber ys) = map intNumber (sort ys)"
  using assms
proof (induction ys)
  case Nil
  show ?case by (simp add: sortNumbers_def)
next
  case (Cons y ys)
  then have ih: "sortNumbers (map intNumber ys) = map intNumber (sort ys)" by simp
  have "sortNumbers (map intNumber (y # ys)) = insertSorted (intNumber y) (sortNumbers (map intNumber ys))"
    by (simp add: sortNumbers_def)
  also have "\<dots> = insertSorted (intNumber y) (map intNumber (sort ys))" unfolding ih ..
  also have "\<dots> = map intNumber (insort y (sort ys))"
    using Cons.prems by (intro insertSorted_int) simp_all
  finally show ?case by (simp add: sort_key_simps)
qed

lemma segmentLoop_int:
  assumes "0 \<le> en" and "en < 2 ^ 53" and "\<forall>n \<in> set ns. 0 \<le> n \<and> n < 2 ^ 53"
  shows "segmentLoop (map intNumber ns) (intNumber st) (intNumber en) (map segmentNumbers segs)
         = map segmentNumbers (exactLoop ns st en segs)"
  using assms
proof (induction ns arbitrary: st en segs)
  case Nil
  show ?case by (simp add: segmentNumbers_def)
next
  case (Cons n ns)
  then have n: "0 \<le> n" "n < 2 ^ 53" and rest: "\<forall>n \<in> set ns. 0 \<le> n \<and> n < 2 ^ 53" by simp_all
  have "intNumber n \<noteq> NaN" by (simp add: intNumber_def)
  then have eq: "strictEquals (intNumber n) (plusOne (intNumber en)) \<longleftrightarrow> n = en + 1"
    unfolding plusOne_int [OF Cons.prems(1,2)] by (simp add: strictEquals_def)
  show ?case
  proof (cases "n = en + 1")
    case True
    with eq Cons.IH [OF n rest, of st segs] show ?thesis by simp
  next
    case False
    have "map segmentNumbers segs @ [(intNumber st, intNumber en)]
          = map segmentNumbers (segs @ [(st, en)])" by (simp add: segmentNumbers_def)
    with False eq Cons.IH [OF n rest, of n "segs @ [(st, en)]"] show ?thesis by simp
  qed
qed

subsection \<open>From integers to numbers\<close>

lemma safe_positive:
  assumes "isSafeInteger x" and "greaterThanZero x"
  shows "\<exists>n. x = intNumber n \<and> 0 \<le> n \<and> n < 2 ^ 53"
proof (cases x)
  case (Finite r)
  with assms have r: "r = of_int \<lfloor>r\<rfloor>" "\<bar>r\<bar> \<le> 2 ^ 53 - 1" "0 < r"
    by (simp_all add: isSafeInteger_def greaterThanZero_def)
  define n where "n = \<lfloor>r\<rfloor>"
  have rn: "r = of_int n" using r(1) by (simp add: n_def)
  from r(3) have pos: "0 < n" unfolding rn by simp
  from r(2) pos have "(of_int n :: rat) \<le> 2 ^ 53 - 1" unfolding rn by simp
  also have "(2 ^ 53 - 1 :: rat) = of_int (2 ^ 53 - 1)" by simp
  finally have "n \<le> 2 ^ 53 - 1" by (simp only: of_int_le_iff)
  then have "n < 2 ^ 53" by simp
  with pos rn Finite show ?thesis by (intro exI [of _ n]) (simp add: intNumber_def)
qed (use assms in \<open>simp_all add: isSafeInteger_def\<close>)

lemma safe_list:
  assumes "\<forall>x \<in> set xs. isSafeInteger x \<and> greaterThanZero x"
  shows "\<exists>ns. xs = map intNumber ns \<and> (\<forall>n \<in> set ns. 0 \<le> n \<and> n < 2 ^ 53)"
  using assms
proof (induction xs)
  case Nil
  show ?case by simp
next
  case (Cons x xs)
  then obtain ns where ns: "xs = map intNumber ns" "\<forall>n \<in> set ns. 0 \<le> n \<and> n < 2 ^ 53" by auto
  from Cons.prems safe_positive [of x] obtain n where n: "x = intNumber n" "0 \<le> n" "n < 2 ^ 53"
    by auto
  have a: "x # xs = map intNumber (n # ns)" using n(1) ns(1) by simp
  have b: "\<forall>k \<in> set (n # ns). 0 \<le> k \<and> k < 2 ^ 53" using n ns(2) by simp
  from a b show ?case by (intro exI [of _ "n # ns"] conjI)
qed

lemma isSafeInteger_int: "0 \<le> n \<Longrightarrow> n < 2 ^ 53 \<Longrightarrow> isSafeInteger (intNumber n)"
proof -
  assume "0 \<le> n" and "n < 2 ^ 53"
  then have "\<bar>n\<bar> \<le> 2 ^ 53 - 1" by simp
  then have "(of_int \<bar>n\<bar> :: rat) \<le> of_int (2 ^ 53 - 1)" by (simp only: of_int_le_iff)
  also have "(of_int (2 ^ 53 - 1) :: rat) = 2 ^ 53 - 1" by simp
  finally show ?thesis by (simp add: isSafeInteger_def intNumber_def)
qed

lemma inRange_int: "inRange (segmentNumbers seg) n \<longleftrightarrow> fst seg \<le> n \<and> n \<le> snd seg"
  by (simp add: inRange_def segmentNumbers_def lessEq_def intNumber_def)

lemma covered_int: "covered (map segmentNumbers R) = (\<Union>(s, e) \<in> set R. {s..e})"
proof (rule set_eqI)
  fix n
  show "n \<in> covered (map segmentNumbers R) \<longleftrightarrow> n \<in> (\<Union>(s, e) \<in> set R. {s..e})"
    by (simp add: covered_def inRange_int split_def)
qed

lemma integersOf_int: "integersOf (map intNumber ns) = set ns"
  by (auto simp add: integersOf_def)

lemma ascending_int: "ascending (map segmentNumbers R) \<longleftrightarrow> sorted (map fst R)"
  by (simp add: ascending_def sorted_wrt_map segmentNumbers_def lessEq_def intNumber_def)

lemma separated_int:
  "separated (map segmentNumbers R) \<longleftrightarrow> sorted_wrt (\<lambda>a b. snd a + 1 < fst b) R"
proof -
  have "gapBefore (segmentNumbers a) (segmentNumbers b) \<longleftrightarrow> snd a + 1 < fst b" for a b
  proof -
    have "(of_int (snd a) + 1 < (of_int (fst b) :: rat)) \<longleftrightarrow> snd a + 1 < fst b"
      by (metis of_int_1 of_int_add of_int_less_iff)
    then show ?thesis by (simp add: gapBefore_def segmentNumbers_def intNumber_def)
  qed
  then show ?thesis by (simp add: separated_def sorted_wrt_map)
qed

lemma distinct_int: "distinct (map intNumber ns) \<longleftrightarrow> distinct ns"
  by (simp add: distinct_map inj_on_def)

text \<open>C1. For a list of lock ids in which every positive parsed value is a safe integer (an
  integer of at most \<open>2^53 - 1\<close>): the ranges of the segments returned cover exactly the
  integers among the positive parsed values; the endpoints of every segment are safe integers
  with start \<open>\<le>\<close> end, and the segments are in ascending order of start. When the positive
  parsed values are pairwise different, every segment ends at least two below the start of
  every later one, so the segments are pairwise disjoint and no two of them can be merged.\<close>

theorem C1_segments_of_ids:
  assumes "\<forall>x \<in> set (positiveIds lockIds). isSafeInteger x"
  shows "covered (convertLockIdsToSegments lockIds) = integersOf (positiveIds lockIds) \<and>
         (\<forall>seg \<in> set (convertLockIdsToSegments lockIds).
            isSafeInteger (fst seg) \<and> isSafeInteger (snd seg) \<and> lessEq (fst seg) (snd seg)) \<and>
         ascending (convertLockIdsToSegments lockIds) \<and>
         (distinct (positiveIds lockIds) \<longrightarrow> separated (convertLockIdsToSegments lockIds))"
proof -
  have "\<forall>x \<in> set (positiveIds lockIds). isSafeInteger x \<and> greaterThanZero x"
    using assms by (simp add: positiveIds_def)
  from safe_list [OF this] obtain ns
    where ids: "positiveIds lockIds = map intNumber ns"
      and safe: "\<forall>n \<in> set ns. 0 \<le> n \<and> n < 2 ^ 53"
    by blast
  have sorted_ids: "sortNumbers (positiveIds lockIds) = map intNumber (sort ns)"
    unfolding ids using safe by (rule sortNumbers_int)
  show ?thesis
  proof (cases "sort ns")
    case Nil
    then have "set (sort ns) = {}" by simp
    then have "ns = []" by simp
    then show ?thesis
      using ids
      by (simp add: convertLockIdsToSegments_def sortNumbers_def covered_def integersOf_def
          ascending_def separated_def)
  next
    case (Cons first rest)
    let ?R = "exactLoop rest first first []"
    have "sorted (sort ns)" by simp
    then have srt: "sorted (first # rest)" unfolding Cons .
    have st: "set (first # rest) = set ns" unfolding Cons [symmetric] by simp
    have di: "distinct (first # rest) = distinct ns" unfolding Cons [symmetric] by simp
    have safe': "\<forall>n \<in> set (first # rest). 0 \<le> n \<and> n < 2 ^ 53" unfolding st using safe .
    then have f: "0 \<le> first" "first < 2 ^ 53" and r: "\<forall>n \<in> set rest. 0 \<le> n \<and> n < 2 ^ 53"
      by simp_all
    have "segmentLoop (map intNumber rest) (intNumber first) (intNumber first) (map segmentNumbers [])
          = map segmentNumbers (exactLoop rest first first [])"
      using f r by (rule segmentLoop_int)
    then have segs: "convertLockIdsToSegments lockIds = map segmentNumbers ?R"
      by (simp add: convertLockIdsToSegments_def sorted_ids Cons)
    have "first \<le> first" by simp
    from exactLoop_props [OF this srt] have p:
      "(\<Union>(s, e) \<in> set ?R. {s..e}) = {first..first} \<union> set rest"
      "\<forall>(s, e) \<in> set ?R. first \<le> s \<and> s \<le> e"
      "sorted (map fst ?R)"
      "distinct (first # rest) \<longrightarrow> sorted_wrt (\<lambda>a b. snd a + 1 < fst b) ?R"
      by simp_all
    from p(1) st have cov: "(\<Union>(s, e) \<in> set ?R. {s..e}) = set ns" by simp
    have c1: "covered (map segmentNumbers ?R) = integersOf (map intNumber ns)"
      unfolding covered_int integersOf_int by (rule cov)
    have c2: "isSafeInteger (fst seg) \<and> isSafeInteger (snd seg) \<and> lessEq (fst seg) (snd seg)"
      if "seg \<in> set (map segmentNumbers ?R)" for seg
    proof -
      from that obtain s e where se: "(s, e) \<in> set ?R" "seg = segmentNumbers (s, e)" by auto
      from se(1) p(2) have le: "s \<le> e" by auto
      with se(1) have "s \<in> (\<Union>(s, e) \<in> set ?R. {s..e})" "e \<in> (\<Union>(s, e) \<in> set ?R. {s..e})"
        by force+
      with cov safe have "0 \<le> s \<and> s < 2 ^ 53" "0 \<le> e \<and> e < 2 ^ 53" by simp_all
      then have "isSafeInteger (intNumber s)" "isSafeInteger (intNumber e)"
        by (simp_all add: isSafeInteger_int)
      with le se(2) show ?thesis
        by (simp add: segmentNumbers_def lessEq_def intNumber_def)
    qed
    have c3: "ascending (map segmentNumbers ?R)" unfolding ascending_int by (rule p(3))
    have c4: "distinct (map intNumber ns) \<longrightarrow> separated (map segmentNumbers ?R)"
      unfolding separated_int distinct_int using p(4) di by simp
    from c1 c2 c3 c4 show ?thesis unfolding segs ids by blast
  qed
qed

theorem C1_segments_of_ids_witness:
  "positiveIds [IdString ''12'', IdNumber (Finite 10), IdString '' +11abc'', IdString ''x7'',
                IdNumber (Finite (- 3)), IdNumber NaN, IdNumber (Finite 20),
                IdString ''9007199254740991'']
     = [Finite 12, Finite 10, Finite 11, Finite 20, Finite 9007199254740991] \<and>
   isSafeInteger (Finite 12) \<and> isSafeInteger (Finite 10) \<and> isSafeInteger (Finite 11) \<and>
   isSafeInteger (Finite 20) \<and> isSafeInteger (Finite 9007199254740991) \<and>
   distinct [Finite 12, Finite 10, Finite 11, Finite 20, Finite 9007199254740991] \<and>
   convertLockIdsToSegments
       [IdString ''12'', IdNumber (Finite 10), IdString '' +11abc'', IdString ''x7'',
        IdNumber (Finite (- 3)), IdNumber NaN, IdNumber (Finite 20),
        IdString ''9007199254740991'']
     = [(Finite 10, Finite 12), (Finite 20, Finite 20),
        (Finite 9007199254740991, Finite 9007199254740991)] \<and>
   covered [(Finite 10, Finite 12), (Finite 20, Finite 20),
            (Finite 9007199254740991, Finite 9007199254740991)]
     = integersOf [Finite 12, Finite 10, Finite 11, Finite 20, Finite 9007199254740991] \<and>
   ascending [(Finite 10, Finite 12), (Finite 20, Finite 20),
              (Finite 9007199254740991, Finite 9007199254740991)] \<and>
   separated [(Finite 10, Finite 12), (Finite 20, Finite 20),
              (Finite 9007199254740991, Finite 9007199254740991)]"
proof -
  let ?L = "[IdString ''12'', IdNumber (Finite 10), IdString '' +11abc'', IdString ''x7'',
             IdNumber (Finite (- 3)), IdNumber NaN, IdNumber (Finite 20),
             IdString ''9007199254740991'']"
  let ?ids = "[Finite 12, Finite 10, Finite 11, Finite 20, Finite 9007199254740991]"
  have ids: "positiveIds ?L = ?ids" by code_simp
  have s: "isSafeInteger (Finite 12)" "isSafeInteger (Finite 10)" "isSafeInteger (Finite 11)"
    "isSafeInteger (Finite 20)" "isSafeInteger (Finite 9007199254740991)"
    by (simp_all add: isSafeInteger_def)
  then have safe: "\<forall>x \<in> set (positiveIds ?L). isSafeInteger x" unfolding ids by simp
  have d: "distinct ?ids" by simp
  have v: "convertLockIdsToSegments ?L
           = [(Finite 10, Finite 12), (Finite 20, Finite 20),
              (Finite 9007199254740991, Finite 9007199254740991)]" by code_simp
  note main = C1_segments_of_ids [OF safe, unfolded v ids]
  from main have c: "covered [(Finite 10, Finite 12), (Finite 20, Finite 20),
                              (Finite 9007199254740991, Finite 9007199254740991)]
                     = integersOf ?ids" by (rule conjunct1)
  from main have a: "ascending [(Finite 10, Finite 12), (Finite 20, Finite 20),
                                (Finite 9007199254740991, Finite 9007199254740991)]"
    by (elim conjE)
  from main d have p: "separated [(Finite 10, Finite 12), (Finite 20, Finite 20),
                                  (Finite 9007199254740991, Finite 9007199254740991)]"
    by (elim conjE) (rule mp)
  from ids s d v c a p show ?thesis by (intro conjI)
qed

text \<open>Three inputs on which the segments are not what the unrestricted statement says. The
  function sorts but never removes duplicates: for \<open>[1, 1, 2]\<close> two segments overlap. From
  \<open>2^53\<close> on, \<open>end + 1\<close> is rounded: \<open>9007199254740994 + 1\<close> is \<open>9007199254740996\<close>, so the ids
  \<open>9007199254740994\<close> and \<open>9007199254740996\<close> are merged into one range, which covers
  \<open>9007199254740995\<close>. And numbers that are not integers are merged in the same way: \<open>1.5\<close> and
  \<open>2.5\<close> give the range \<open>[1.5, 2.5]\<close>, which covers \<open>2\<close>.\<close>

theorem C1_segments_of_ids_counterexample:
  "convertLockIdsToSegments [IdNumber (Finite 1), IdNumber (Finite 1), IdNumber (Finite 2)]
     = [(Finite 1, Finite 1), (Finite 1, Finite 2)] \<and>
   inRange (Finite 1, Finite 1) 1 \<and> inRange (Finite 1, Finite 2) 1 \<and>
   \<not> separated
       (convertLockIdsToSegments [IdNumber (Finite 1), IdNumber (Finite 1), IdNumber (Finite 2)]) \<and>
   convertLockIdsToSegments [IdString ''9007199254740994'', IdNumber (Finite 9007199254740996)]
     = [(Finite 9007199254740994, Finite 9007199254740996)] \<and>
   9007199254740995
     \<in> covered (convertLockIdsToSegments
                   [IdString ''9007199254740994'', IdNumber (Finite 9007199254740996)]) \<and>
   9007199254740995
     \<notin> integersOf (positiveIds
                      [IdString ''9007199254740994'', IdNumber (Finite 9007199254740996)]) \<and>
   convertLockIdsToSegments [IdNumber (Finite (3 / 2)), IdNumber (Finite (5 / 2))]
     = [(Finite (3 / 2), Finite (5 / 2))] \<and>
   2 \<in> covered (convertLockIdsToSegments [IdNumber (Finite (3 / 2)), IdNumber (Finite (5 / 2))]) \<and>
   2 \<notin> integersOf (positiveIds [IdNumber (Finite (3 / 2)), IdNumber (Finite (5 / 2))])"
proof -
  have v1: "convertLockIdsToSegments [IdNumber (Finite 1), IdNumber (Finite 1), IdNumber (Finite 2)]
            = [(Finite 1, Finite 1), (Finite 1, Finite 2)]"
    by code_simp
  have r1: "inRange (Finite 1, Finite 1) 1" "inRange (Finite 1, Finite 2) 1"
    by (simp_all add: inRange_def lessEq_def intNumber_def)
  have n1: "\<not> separated [(Finite 1, Finite 1), (Finite 1, Finite 2)]"
    by (simp add: separated_def gapBefore_def)
  have v2: "convertLockIdsToSegments
              [IdString ''9007199254740994'', IdNumber (Finite 9007199254740996)]
            = [(Finite 9007199254740994, Finite 9007199254740996)]"
    by code_simp
  have i2: "positiveIds [IdString ''9007199254740994'', IdNumber (Finite 9007199254740996)]
            = [Finite 9007199254740994, Finite 9007199254740996]"
    by code_simp
  have c2: "9007199254740995 \<in> covered [(Finite 9007199254740994, Finite 9007199254740996)]"
    by (simp add: covered_def inRange_def lessEq_def intNumber_def)
  have m2: "9007199254740995 \<notin> integersOf [Finite 9007199254740994, Finite 9007199254740996]"
    by (simp add: integersOf_def intNumber_def)
  have v3: "convertLockIdsToSegments [IdNumber (Finite (3 / 2)), IdNumber (Finite (5 / 2))]
            = [(Finite (3 / 2), Finite (5 / 2))]"
    by code_simp
  have i3: "positiveIds [IdNumber (Finite (3 / 2)), IdNumber (Finite (5 / 2))]
            = [Finite (3 / 2), Finite (5 / 2)]"
    by code_simp
  have c3: "2 \<in> covered [(Finite (3 / 2), Finite (5 / 2))]"
    by (simp add: covered_def inRange_def lessEq_def intNumber_def)
  have m3: "2 \<notin> integersOf [Finite (3 / 2), Finite (5 / 2)]"
    by (simp add: integersOf_def intNumber_def)
  from v1 r1 n1 v2 c2 m2 v3 c3 m3 show ?thesis unfolding v1 v2 i2 v3 i3 by (intro conjI)
qed

text \<open>Rounding at work: a digit string beyond \<open>2^53\<close> is read as the nearest double, twice the
  id \<open>2^53\<close> is one segment because \<open>2^53 + 1\<close> is \<open>2^53\<close>, and a digit string beyond the largest
  double is read as Infinity, which is its own successor.\<close>

lemma C1_examples:
  "idToNumber (IdString ''9007199254740993'') = Finite 9007199254740992"
  "convertLockIdsToSegments [IdNumber (Finite 9007199254740992), IdNumber (Finite 9007199254740992)]
     = [(Finite 9007199254740992, Finite 9007199254740992)]"
  "convertLockIdsToSegments [IdNumber PosInf, IdNumber (Finite 5), IdNumber PosInf, IdNumber (Finite 4)]
     = [(Finite 4, Finite 5), (PosInf, PosInf)]"
  "convertLockIdsToSegments [IdString ''abc'', IdString ''-7'', IdString ''0'', IdNumber NaN] = []"
  by code_simp+


section \<open>Properties of the frame index counter\<close>

lemma buildCompletePacket_frameIndexes:
  assumes "buildCompletePacket aes s deviceId applicationData options = (result, s')"
  shows "frameIndexes s' =
           (case result of
              Inl e \<Rightarrow> frameIndexes s
            | Inr packet \<Rightarrow>
                if (case opt_ackType options of None \<Rightarrow> REQUEST_WITH_ACK | Some a \<Rightarrow> a) = REQUEST_WITH_ACK
                then (frameIndexes s)(deviceId \<mapsto>
                       ((case opt_frameIndex options of
                           None \<Rightarrow> currentFrameIndex s deviceId | Some f \<Rightarrow> f) + 1) mod 256)
                else frameIndexes s)"
  using assms
  by (auto simp: buildCompletePacket_def Let_def split: option.splits if_splits)

lemma buildReplyPacket_state:
  "snd (buildReplyPacket aes s deviceId applicationData frameIndex transportOpts) = s"
  by (simp add: buildReplyPacket_def Let_def split: option.splits)

text \<open>C8. When \<open>sendCommand\<close> has built its packet, the frame index of the device is the
  previous one plus 1 modulo 256 if the ack type of the send (\<open>REQUEST_WITH_ACK\<close> when none is
  given) is \<open>REQUEST_WITH_ACK\<close>, and the frame indexes are unchanged for every other ack type;
  no other device's frame index changes. \<open>buildReplyPacket\<close> leaves the frame indexes
  unchanged.\<close>

theorem C8_frameIndex_counter:
  "(sendCommand_build aes s deviceId commandData transportOpts = (Inr packet, s') \<longrightarrow>
      frameIndexes s' =
        (if (case opt_ackType transportOpts of None \<Rightarrow> REQUEST_WITH_ACK | Some a \<Rightarrow> a)
              = REQUEST_WITH_ACK
         then (frameIndexes s)(deviceId \<mapsto> (currentFrameIndex s deviceId + 1) mod 256)
         else frameIndexes s)) \<and>
   frameIndexes (snd (buildReplyPacket aes s deviceId replyData frameIndex replyOpts))
     = frameIndexes s"
proof (intro conjI impI)
  assume "sendCommand_build aes s deviceId commandData transportOpts = (Inr packet, s')"
  then have b: "buildCompletePacket aes s deviceId commandData
            (transportOptions.extend transportOpts
               (packetOptions.fields (Some (currentFrameIndex s deviceId)))) = (Inr packet, s')"
    by (simp add: sendCommand_build_def Let_def)
  have o: "opt_ackType (transportOptions.extend transportOpts
               (packetOptions.fields (Some (currentFrameIndex s deviceId)))) = opt_ackType transportOpts"
    "opt_frameIndex (transportOptions.extend transportOpts
               (packetOptions.fields (Some (currentFrameIndex s deviceId))))
       = Some (currentFrameIndex s deviceId)"
    by (simp_all add: transportOptions.defs packetOptions.defs)
  from buildCompletePacket_frameIndexes [OF b]
  show "frameIndexes s' =
        (if (case opt_ackType transportOpts of None \<Rightarrow> REQUEST_WITH_ACK | Some a \<Rightarrow> a)
              = REQUEST_WITH_ACK
         then (frameIndexes s)(deviceId \<mapsto> (currentFrameIndex s deviceId + 1) mod 256)
         else frameIndexes s)"
    unfolding o by simp
next
  show "frameIndexes (snd (buildReplyPacket aes s deviceId replyData frameIndex replyOpts))
     = frameIndexes s"
    by (simp add: buildReplyPacket_state)
qed


theorem C8_frameIndex_counter_witness:
  "sendCommand_build plainCipher
     ((connectDevice_init newSdk ''lock-1'' [])\<lparr>frameIndexes := [''lock-1'' \<mapsto> 255]\<rparr>)
     ''lock-1'' [0x06]
     \<lparr>opt_version = None, opt_ackType = None, opt_encryptType = Some NO_ENCRYPT,
      opt_cryptoFactory = None, opt_secretKey = None\<rparr>
   = (Inr (PhysicalLayer_pack [0x01, 0xF6, 0xFF, 0x01, 0x06]),
      (connectDevice_init newSdk ''lock-1'' [])\<lparr>frameIndexes := [''lock-1'' \<mapsto> 0]\<rparr>) \<and>
   frameIndexes ((connectDevice_init newSdk ''lock-1'' [])\<lparr>frameIndexes := [''lock-1'' \<mapsto> 0]\<rparr>)
     = [''lock-1'' \<mapsto> (255 + 1) mod 256]"
proof -
  let ?s = "(connectDevice_init newSdk ''lock-1'' [])\<lparr>frameIndexes := [''lock-1'' \<mapsto> 255]\<rparr>"
  let ?s' = "(connectDevice_init newSdk ''lock-1'' [])\<lparr>frameIndexes := [''lock-1'' \<mapsto> 0]\<rparr>"
  let ?o = "\<lparr>opt_version = None, opt_ackType = None, opt_encryptType = Some NO_ENCRYPT,
             opt_cryptoFactory = None, opt_secretKey = None\<rparr>"
  have c: "currentFrameIndex ?s ''lock-1'' = 255" by (simp add: currentFrameIndex_def)
  have e: "sendCommand_build plainCipher ?s ''lock-1'' [0x06] ?o
           = (Inr (PhysicalLayer_pack [0x01, 0xF6, 0xFF, 0x01, 0x06]), ?s')"
    by (simp add: sendCommand_build_def buildCompletePacket_def c Let_def
        transportOptions.defs packetOptions.defs TransportLayer_pack_def controlByteOf_def
        ApplicationLayer_pack_def)
  from C8_frameIndex_counter [of plainCipher ?s "''lock-1''" "[0x06]" ?o
      "PhysicalLayer_pack [0x01, 0xF6, 0xFF, 0x01, 0x06]" ?s'] e
  have "frameIndexes ?s' = (frameIndexes ?s)(''lock-1'' \<mapsto> (currentFrameIndex ?s ''lock-1'' + 1) mod 256)"
    by simp
  then have "frameIndexes ?s' = [''lock-1'' \<mapsto> (255 + 1) mod 256]"
    unfolding c by simp
  with e show ?thesis by (intro conjI)
qed

text \<open>With another ack type the frame index stays, and a failed build leaves it too.\<close>

lemma C8_other_ackType_example:
  "frameIndexes (snd (sendCommand_build plainCipher
     ((connectDevice_init newSdk ''lock-1'' [])\<lparr>frameIndexes := [''lock-1'' \<mapsto> 255]\<rparr>)
     ''lock-1'' [0x06]
     \<lparr>opt_version = None, opt_ackType = Some REQUEST_WITHOUT_ACK, opt_encryptType = Some NO_ENCRYPT,
      opt_cryptoFactory = None, opt_secretKey = None\<rparr>)) ''lock-1'' = Some 255"
  by (simp add: sendCommand_build_def buildCompletePacket_def Let_def
      transportOptions.defs packetOptions.defs TransportLayer_pack_def controlByteOf_def)

lemma sendCommand_build_failure:
  "sendCommand_build aes s deviceId commandData transportOpts = (Inl e, s') \<Longrightarrow> s' = s"
  by (auto simp: sendCommand_build_def buildCompletePacket_def Let_def
      split: option.splits if_splits)


section \<open>Properties of the handling of device reports\<close>

lemma buildReplyPacket_default:
  "buildReplyPacket aes s deviceId replyData frameIndex None
   = (Inr (ackReplyPacket aes (dynamicKeyOf s deviceId) replyData frameIndex), s)"
  by (simp add: buildReplyPacket_def Let_def TransportLayer_pack_def controlByteOf_def
      AesEcbCryptoFactory_encrypt_def ackReplyPacket_def)

lemma handleDeviceActiveCommand_eq:
  "handleDeviceActiveCommand aes s deviceId frameIndex (c # rest)
   = bleWrite s deviceId
       (ackReplyPacket aes (dynamicKeyOf s deviceId) (activeCommandReply c) frameIndex)"
  by (simp add: handleDeviceActiveCommand_def Let_def buildReplyPacket_default)

lemma handleDeviceReport_fields:
  "written (handleDeviceReport s deviceId bytes) = written s"
  "dynamicKeys (handleDeviceReport s deviceId bytes) = dynamicKeys s"
  "emitted (handleDeviceReport s deviceId bytes) =
     emitted s @ (case parseDeviceStatusReport bytes of
                    None \<Rightarrow> [ErrorEvent deviceId]
                  | Some report \<Rightarrow> reportEvents deviceId bytes report)"
  by (simp_all add: handleDeviceReport_def emitEvent_def Let_def reportEvents_def
      split: option.splits)

lemma handleRequestWithAckData_report:
  assumes "c = UPLOAD_STATUS \<or> c = GET_SYS_PARAM"
  shows "written (handleRequestWithAckData aes s deviceId frameIndex command (c # rest))
           = written s @ [(deviceId,
               ackReplyPacket aes (dynamicKeyOf s deviceId) (activeCommandReply c) frameIndex)]"
    and "emitted (handleRequestWithAckData aes s deviceId frameIndex command (c # rest))
           = emitted s @ (case parseDeviceStatusReport (c # rest) of
                            None \<Rightarrow> [ErrorEvent deviceId]
                          | Some report \<Rightarrow> reportEvents deviceId (c # rest) report)"
proof -
  have r: "isDeviceReport (c # rest)" using assms by (simp add: isDeviceReport_def)
  have k: "dynamicKeyOf (handleDeviceReport s deviceId (c # rest)) deviceId = dynamicKeyOf s deviceId"
    by (simp add: dynamicKeyOf_def handleDeviceReport_fields)
  show "written (handleRequestWithAckData aes s deviceId frameIndex command (c # rest))
           = written s @ [(deviceId,
               ackReplyPacket aes (dynamicKeyOf s deviceId) (activeCommandReply c) frameIndex)]"
    by (simp add: handleRequestWithAckData_def r handleDeviceActiveCommand_eq k bleWrite_def
        handleDeviceReport_fields)
  show "emitted (handleRequestWithAckData aes s deviceId frameIndex command (c # rest))
           = emitted s @ (case parseDeviceStatusReport (c # rest) of
                            None \<Rightarrow> [ErrorEvent deviceId]
                          | Some report \<Rightarrow> reportEvents deviceId (c # rest) report)"
    by (simp add: handleRequestWithAckData_def r handleDeviceActiveCommand_eq bleWrite_def
        handleDeviceReport_fields)
qed

lemma parseDeviceStatusReport_status:
  "(\<exists>report. parseDeviceStatusReport (UPLOAD_STATUS # rest) = Some report) \<longleftrightarrow> length rest = 6"
  by (auto simp: parseDeviceStatusReport_def Let_def validateResponse_def UPLOAD_STATUS_def
      GET_SYS_PARAM_def split: if_splits option.splits)

lemma parseDeviceStatusReport_info:
  "(\<exists>report. parseDeviceStatusReport (GET_SYS_PARAM # rest) = Some report) \<longleftrightarrow> length rest = 7"
  by (auto simp: parseDeviceStatusReport_def Let_def validateResponse_def UPLOAD_STATUS_def
      GET_SYS_PARAM_def split: if_splits option.splits)


text \<open>C4. An inbound \<open>REQUEST_WITH_ACK\<close> message that starts with the status report opcode
  \<open>0x07\<close> is answered by one write of an ACK reply carrying the two bytes \<open>[0x07, 0x01]\<close> on the
  frame index of the message; the report events are emitted when the message is exactly 7 bytes
  long, and an error event otherwise. A message that starts with the device information opcode
  \<open>0x06\<close> is answered by one write of an ACK reply on the frame index of the message; the report
  events are emitted when the message is exactly 8 bytes long, and an error event otherwise.\<close>

theorem C4_device_report_reply:
  "written (handleRequestWithAckData aes s deviceId frameIndex command (UPLOAD_STATUS # rest))
     = written s @ [(deviceId, ackReplyPacket aes (dynamicKeyOf s deviceId) [0x07, 0x01] frameIndex)] \<and>
   (length rest = 6 \<longrightarrow>
      (\<exists>report. emitted (handleRequestWithAckData aes s deviceId frameIndex command (UPLOAD_STATUS # rest))
         = emitted s @ reportEvents deviceId (UPLOAD_STATUS # rest) report)) \<and>
   (length rest \<noteq> 6 \<longrightarrow>
      emitted (handleRequestWithAckData aes s deviceId frameIndex command (UPLOAD_STATUS # rest))
        = emitted s @ [ErrorEvent deviceId]) \<and>
   (\<exists>replyData.
      written (handleRequestWithAckData aes s deviceId frameIndex command (GET_SYS_PARAM # rest))
        = written s @ [(deviceId, ackReplyPacket aes (dynamicKeyOf s deviceId) replyData frameIndex)]) \<and>
   (length rest = 7 \<longrightarrow>
      (\<exists>report. emitted (handleRequestWithAckData aes s deviceId frameIndex command (GET_SYS_PARAM # rest))
         = emitted s @ reportEvents deviceId (GET_SYS_PARAM # rest) report)) \<and>
   (length rest \<noteq> 7 \<longrightarrow>
      emitted (handleRequestWithAckData aes s deviceId frameIndex command (GET_SYS_PARAM # rest))
        = emitted s @ [ErrorEvent deviceId])"
proof (intro conjI impI)
  show "written (handleRequestWithAckData aes s deviceId frameIndex command (UPLOAD_STATUS # rest))
     = written s @ [(deviceId, ackReplyPacket aes (dynamicKeyOf s deviceId) [0x07, 0x01] frameIndex)]"
    by (simp add: handleRequestWithAckData_report(1) activeCommandReply_def)
next
  assume "length rest = 6"
  then obtain report where "parseDeviceStatusReport (UPLOAD_STATUS # rest) = Some report"
    using parseDeviceStatusReport_status [of rest] by blast
  then show "\<exists>report. emitted (handleRequestWithAckData aes s deviceId frameIndex command (UPLOAD_STATUS # rest))
         = emitted s @ reportEvents deviceId (UPLOAD_STATUS # rest) report"
    by (intro exI [of _ report]) (simp add: handleRequestWithAckData_report(2))
next
  assume "length rest \<noteq> 6"
  then have "parseDeviceStatusReport (UPLOAD_STATUS # rest) = None"
    using parseDeviceStatusReport_status [of rest] by (cases "parseDeviceStatusReport (UPLOAD_STATUS # rest)") auto
  then show "emitted (handleRequestWithAckData aes s deviceId frameIndex command (UPLOAD_STATUS # rest))
        = emitted s @ [ErrorEvent deviceId]"
    by (simp add: handleRequestWithAckData_report(2))
next
  show "\<exists>replyData.
      written (handleRequestWithAckData aes s deviceId frameIndex command (GET_SYS_PARAM # rest))
        = written s @ [(deviceId, ackReplyPacket aes (dynamicKeyOf s deviceId) replyData frameIndex)]"
    by (intro exI [of _ "activeCommandReply GET_SYS_PARAM"])
       (simp add: handleRequestWithAckData_report(1))
next
  assume "length rest = 7"
  then obtain report where "parseDeviceStatusReport (GET_SYS_PARAM # rest) = Some report"
    using parseDeviceStatusReport_info [of rest] by blast
  then show "\<exists>report. emitted (handleRequestWithAckData aes s deviceId frameIndex command (GET_SYS_PARAM # rest))
         = emitted s @ reportEvents deviceId (GET_SYS_PARAM # rest) report"
    by (intro exI [of _ report]) (simp add: handleRequestWithAckData_report(2))
next
  assume "length rest \<noteq> 7"
  then have "parseDeviceStatusReport (GET_SYS_PARAM # rest) = None"
    using parseDeviceStatusReport_info [of rest] by (cases "parseDeviceStatusReport (GET_SYS_PARAM # rest)") auto
  then show "emitted (handleRequestWithAckData aes s deviceId frameIndex command (GET_SYS_PARAM # rest))
        = emitted s @ [ErrorEvent deviceId]"
    by (simp add: handleRequestWithAckData_report(2))
qed

theorem C4_device_report_reply_witness:
  "length [0x05, 0x02, 0x01, 0x00, 0x00, 0x00 :: byte] = 6 \<and>
   (\<exists>report.
      emitted (handleRequestWithAckData plainCipher (connectDevice_init newSdk ''lock-1'' [])
                 ''lock-1'' 3 0x07 (UPLOAD_STATUS # [0x05, 0x02, 0x01, 0x00, 0x00, 0x00]))
        = emitted (connectDevice_init newSdk ''lock-1'' [])
          @ reportEvents ''lock-1'' (UPLOAD_STATUS # [0x05, 0x02, 0x01, 0x00, 0x00, 0x00]) report) \<and>
   length ([] :: byte list) \<noteq> 6 \<and>
   emitted (handleRequestWithAckData plainCipher (connectDevice_init newSdk ''lock-1'' [])
              ''lock-1'' 3 0x07 (UPLOAD_STATUS # []))
     = emitted (connectDevice_init newSdk ''lock-1'' []) @ [ErrorEvent ''lock-1''] \<and>
   length [0x01, 0x05, 0x02, 0x01, 0x00, 0x00, 0x00 :: byte] = 7 \<and>
   (\<exists>report.
      emitted (handleRequestWithAckData plainCipher (connectDevice_init newSdk ''lock-1'' [])
                 ''lock-1'' 3 0x06 (GET_SYS_PARAM # [0x01, 0x05, 0x02, 0x01, 0x00, 0x00, 0x00]))
        = emitted (connectDevice_init newSdk ''lock-1'' [])
          @ reportEvents ''lock-1'' (GET_SYS_PARAM # [0x01, 0x05, 0x02, 0x01, 0x00, 0x00, 0x00]) report) \<and>
   length ([] :: byte list) \<noteq> 7 \<and>
   emitted (handleRequestWithAckData plainCipher (connectDevice_init newSdk ''lock-1'' [])
              ''lock-1'' 3 0x06 (GET_SYS_PARAM # []))
     = emitted (connectDevice_init newSdk ''lock-1'' []) @ [ErrorEvent ''lock-1'']"
  using C4_device_report_reply [of plainCipher "connectDevice_init newSdk ''lock-1'' []"
      "''lock-1''" 3 "0x07" "[0x05, 0x02, 0x01, 0x00, 0x00, 0x00]"]
    C4_device_report_reply [of plainCipher "connectDevice_init newSdk ''lock-1'' []"
      "''lock-1''" 3 "0x07" "[]"]
    C4_device_report_reply [of plainCipher "connectDevice_init newSdk ''lock-1'' []"
      "''lock-1''" 3 "0x06" "[0x01, 0x05, 0x02, 0x01, 0x00, 0x00, 0x00]"]
    C4_device_report_reply [of plainCipher "connectDevice_init newSdk ''lock-1'' []"
      "''lock-1''" 3 "0x06" "[]"]
  by simp

theorem C4_device_report_reply_counterexample:
  "emitted (handleRequestWithAckData plainCipher (connectDevice_init newSdk ''lock-1'' [])
              ''lock-1'' 3 0x07 [0x07])
     = [ErrorEvent ''lock-1''] \<and>
   activeCommandReply 0x06 = [0x05, 0x01] \<and>
   activeCommandReply 0x06 \<noteq> [0x06, 0x01] \<and>
   written (handleRequestWithAckData plainCipher (connectDevice_init newSdk ''lock-1'' [])
              ''lock-1'' 3 0x06 [0x06, 0x01, 0x05, 0x02, 0x01, 0x00, 0x00, 0x00])
     = [(''lock-1'', PhysicalLayer_pack [0x01, 0xFD, 0x03, 0x02, 0x05, 0x01])]"
proof -
  let ?s = "connectDevice_init newSdk ''lock-1'' []"
  have e: "emitted ?s = []" and w: "written ?s = []"
    by (simp_all add: connectDevice_init_def newSdk_def)
  have p: "parseDeviceStatusReport [0x07] = None"
    by (simp add: parseDeviceStatusReport_def UPLOAD_STATUS_def validateResponse_def)
  have a: "activeCommandReply 0x06 = [0x05, 0x01]"
    by (simp add: activeCommandReply_def UPLOAD_STATUS_def GET_SYS_PARAM_def)
  have "emitted (handleRequestWithAckData plainCipher ?s ''lock-1'' 3 0x07 [0x07])
        = [ErrorEvent ''lock-1'']"
    using handleRequestWithAckData_report(2) [of "0x07" plainCipher ?s "''lock-1''" 3 "0x07" "[]"]
    by (simp add: UPLOAD_STATUS_def e p)
  moreover have "written (handleRequestWithAckData plainCipher ?s ''lock-1'' 3 0x06
                   [0x06, 0x01, 0x05, 0x02, 0x01, 0x00, 0x00, 0x00])
        = [(''lock-1'', PhysicalLayer_pack [0x01, 0xFD, 0x03, 0x02, 0x05, 0x01])]"
    using handleRequestWithAckData_report(1) [of "0x06" plainCipher ?s "''lock-1''" 3 "0x06"
        "[0x01, 0x05, 0x02, 0x01, 0x00, 0x00, 0x00]"]
    by (simp add: GET_SYS_PARAM_def w a ackReplyPacket_def ApplicationLayer_pack_def plainCipher_def)
  ultimately show ?thesis using a by simp
qed

text \<open>The status report of the protocol description: lock state 5, battery state 2, lock id
  bytes \<open>01 00 00 00\<close>.\<close>

lemma parseDeviceStatusReport_example:
  "parseDeviceStatusReport [0x07, 0x05, 0x02, 0x01, 0x00, 0x00, 0x00]
   = Some \<lparr>r_command = 0x07, r_state = LOCKED_CLOSED, r_isLocked = True, r_batteryLevel = 100,
           r_isConnected = True, r_lockId = 1, r_operationResult = None\<rparr>"
  by code_simp


section \<open>Properties of disconnecting\<close>

lemma rejectPromise_promises:
  "promises (rejectPromise s p e) q =
     (if q = p \<and> promises s p = Some Pending then Some (Rejected e) else promises s q)"
  by (simp add: rejectPromise_def)

lemma rejectPromise_timers: "timers (rejectPromise s p e) = timers s"
  by (simp add: rejectPromise_def)

lemma rejectAll_promises:
  "promises (foldl (\<lambda>st (frameIndex, w).
                      rejectPromise (clearTimeout st (w_timer w)) (w_promise w) ConnectionClosed) s m) q
   = (if q \<in> w_promise ` snd ` set m \<and> promises s q = Some Pending
      then Some (Rejected ConnectionClosed) else promises s q)"
proof (induction m arbitrary: s)
  case Nil
  show ?case by simp
next
  case (Cons entry m)
  obtain frameIndex w where entry: "entry = (frameIndex, w)" by (cases entry)
  let ?s1 = "rejectPromise (clearTimeout s (w_timer w)) (w_promise w) ConnectionClosed"
  have p1: "promises ?s1 q =
      (if q = w_promise w \<and> promises s q = Some Pending then Some (Rejected ConnectionClosed)
       else promises s q)"
    by (auto simp: rejectPromise_promises clearTimeout_def)
  show ?case
    unfolding entry using Cons.IH [of ?s1] p1 by auto
qed

lemma rejectAll_timers:
  "timers (foldl (\<lambda>st (frameIndex, w).
                    rejectPromise (clearTimeout st (w_timer w)) (w_promise w) ConnectionClosed) s m) t
   = (if t \<in> w_timer ` snd ` set m then None else timers s t)"
proof (induction m arbitrary: s)
  case Nil
  show ?case by simp
next
  case (Cons entry m)
  obtain frameIndex w where entry: "entry = (frameIndex, w)" by (cases entry)
  let ?s1 = "rejectPromise (clearTimeout s (w_timer w)) (w_promise w) ConnectionClosed"
  have t1: "timers ?s1 t = (if t = w_timer w then None else timers s t)"
    by (simp add: rejectPromise_timers clearTimeout_def)
  show ?case
    unfolding entry using Cons.IH [of ?s1] t1 by auto
qed

lemma clearPendingFrameResponses_promises:
  assumes "pendingFrameResponses s deviceId = Some mapRef"
  shows "promises (clearPendingFrameResponses s deviceId) q
         = (if q \<in> w_promise ` snd ` set (responseMapAt s mapRef) \<and> promises s q = Some Pending
            then Some (Rejected ConnectionClosed) else promises s q)"
    and "timers (clearPendingFrameResponses s deviceId) t
         = (if t \<in> w_timer ` snd ` set (responseMapAt s mapRef) then None else timers s t)"
  using assms
  by (simp_all add: clearPendingFrameResponses_def Let_def rejectAll_promises rejectAll_timers)

text \<open>The disconnect asked for by the caller rejects every pending waiter of the device with
  the error of a closed connection and clears its timer, whether or not the BLE disconnect
  succeeds.\<close>

lemma disconnectDevice_rejects_waiters:
  assumes "connections s deviceId = Some c" and "deviceId \<notin> disconnectingDevices s"
    and "pendingFrameResponses s deviceId = Some mapRef"
    and "(frameIndex, w) \<in> set (responseMapAt s mapRef)"
    and "promises s (w_promise w) = Some Pending"
  shows "promises (snd (disconnectDevice s deviceId bleDisconnectOk)) (w_promise w)
           = Some (Rejected ConnectionClosed) \<and>
         timers (snd (disconnectDevice s deviceId bleDisconnectOk)) (w_timer w) = None"
proof -
  let ?s2 = "s\<lparr>disconnectingDevices := insert deviceId (disconnectingDevices s),
              connections := (connections s)(deviceId \<mapsto> c\<lparr>status := DISCONNECTING\<rparr>)\<rparr>"
  let ?s3 = "clearPendingFrameResponses ?s2 deviceId"
  have pf: "pendingFrameResponses ?s2 deviceId = Some mapRef" using assms(3) by simp
  have rm: "responseMapAt ?s2 mapRef = responseMapAt s mapRef" by (simp add: responseMapAt_def)
  have inp: "w_promise w \<in> w_promise ` snd ` set (responseMapAt s mapRef)"
    and int: "w_timer w \<in> w_timer ` snd ` set (responseMapAt s mapRef)"
    using assms(4) by force+
  have p3: "promises ?s3 (w_promise w) = Some (Rejected ConnectionClosed)"
    using clearPendingFrameResponses_promises(1) [OF pf, of "w_promise w"] inp assms(5)
    by (simp add: rm)
  have t3: "timers ?s3 (w_timer w) = None"
    using clearPendingFrameResponses_promises(2) [OF pf, of "w_timer w"] int
    by (simp add: rm)
  have "promises (snd (disconnectDevice s deviceId bleDisconnectOk)) = promises ?s3"
    and "timers (snd (disconnectDevice s deviceId bleDisconnectOk)) = timers ?s3"
    using assms(1,2)
    by (simp_all add: disconnectDevice_def Let_def emitEvent_def deleteDeviceState_def)
  with p3 t3 show ?thesis by simp
qed

text \<open>The handler of a disconnect by the device settles no promise and clears no timer.\<close>

lemma handleDeviceDisconnected_keeps_waiters:
  "promises (handleDeviceDisconnected s deviceId) = promises s \<and>
   timers (handleDeviceDisconnected s deviceId) = timers s"
  by (simp add: handleDeviceDisconnected_def Let_def emitEvent_def deleteDeviceState_def
      split: option.splits)


text \<open>C2, on the code: a device is connected and a command waits for the response to frame
  index 0 (promise 1, timer 2). When the device drops the connection, the handler leaves the
  promise pending and its timer armed, and the waiter ends only when its own timer runs out,
  with a read timeout. The disconnect asked for by the caller rejects the same waiter with the
  error of a closed connection.\<close>

theorem C2_device_disconnect_leaves_waiter:
  "fst (waitForFrameResponse (connectDevice_init newSdk ''lock-1'' []) ''lock-1'' 0) = 1 \<and>
   promises (snd (waitForFrameResponse (connectDevice_init newSdk ''lock-1'' []) ''lock-1'' 0)) 1
     = Some Pending \<and>
   promises (handleDeviceDisconnected
               (snd (waitForFrameResponse (connectDevice_init newSdk ''lock-1'' []) ''lock-1'' 0))
               ''lock-1'') 1
     = Some Pending \<and>
   timers (handleDeviceDisconnected
               (snd (waitForFrameResponse (connectDevice_init newSdk ''lock-1'' []) ''lock-1'' 0))
               ''lock-1'') 2
     = Some (0, 0, 1) \<and>
   promises (timerFires
               (handleDeviceDisconnected
                  (snd (waitForFrameResponse (connectDevice_init newSdk ''lock-1'' []) ''lock-1'' 0))
                  ''lock-1'') 2) 1
     = Some (Rejected ReadTimeout) \<and>
   promises (snd (disconnectDevice
                    (snd (waitForFrameResponse (connectDevice_init newSdk ''lock-1'' []) ''lock-1'' 0))
                    ''lock-1'' True)) 1
     = Some (Rejected ConnectionClosed)"
proof -
  let ?s0 = "connectDevice_init newSdk ''lock-1'' []"
  let ?s1 = "snd (waitForFrameResponse ?s0 ''lock-1'' 0)"
  have w: "waitForFrameResponse ?s0 ''lock-1'' 0
           = (1, ?s0\<lparr>promises := [1 \<mapsto> Pending],
                      timers := [2 \<mapsto> (0, 0, 1)],
                      responseMaps := [0 \<mapsto> [(0, \<lparr>w_promise = 1, w_timer = 2\<rparr>)] ],
                      pendingFrameResponses := [''lock-1'' \<mapsto> 0],
                      nextId := 3\<rparr>)"
    by (simp add: waitForFrameResponse_def connectDevice_init_def newSdk_def responseMapAt_def Let_def
        numeral_2_eq_2 numeral_3_eq_3)
  have p1: "promises ?s1 1 = Some Pending" and t1: "timers ?s1 2 = Some (0, 0, 1)"
    unfolding w by simp_all
  have d: "promises (handleDeviceDisconnected ?s1 ''lock-1'') = promises ?s1"
    "timers (handleDeviceDisconnected ?s1 ''lock-1'') = timers ?s1"
    using handleDeviceDisconnected_keeps_waiters [of ?s1 "''lock-1''"] by simp_all
  have f: "promises (timerFires (handleDeviceDisconnected ?s1 ''lock-1'') 2) 1
           = Some (Rejected ReadTimeout)"
    using p1 t1 by (simp add: timerFires_def d Let_def rejectPromise_def)
  have c: "connections ?s1 ''lock-1'' = Some \<lparr>isConnected = True, status = CONNECTED\<rparr>"
    and n: "''lock-1'' \<notin> disconnectingDevices ?s1"
    and m: "pendingFrameResponses ?s1 ''lock-1'' = Some 0"
    and e: "(0, \<lparr>w_promise = 1, w_timer = 2\<rparr>) \<in> set (responseMapAt ?s1 0)"
    unfolding w by (simp_all add: connectDevice_init_def newSdk_def responseMapAt_def)
  from disconnectDevice_rejects_waiters [OF c n m e, of True] p1
  have v: "promises (snd (disconnectDevice ?s1 ''lock-1'' True)) 1 = Some (Rejected ConnectionClosed)"
    by simp
  from w p1 t1 d f v show ?thesis by simp
qed


end
